theory Spec2Isabelle
  imports Main "HOL-Library.AList" "HOL-Library.Char_ord" "HOL-Library.Countable"
    "HOL-Library.List_Lexorder"
begin

section \<open>The movement-coordinator service\<close>

text \<open>
  The service keeps two globals, \<open>systemState\<close> (fleet, task list, counters) and
  \<open>globalMovementState\<close> (occupied nodes, per-tick reservations, movement queue).
  Both are threaded here as one record. Objects and \<open>Map\<close>s whose iteration order the
  code relies on are association lists in insertion order; the \<open>Set\<close> of occupied nodes
  is a set. Messages handed to \<open>broadcast\<close> are appended to an output log. Timestamps,
  random payload numbers and the execution-log strings built from them do not influence
  any decision of the code and are left out of the records.
\<close>

type_synonym node = int

type_synonym agvId = string

datatype agvStatus = Idle | Busy | ChargingRoute | Charging | Executing

record agv =
  position :: node
  battery :: int
  status :: agvStatus

record task =
  startNode :: node
  endNode :: node
  weight :: int
  priority :: string
  taskAgv :: agvId
  isCharging :: bool
  isAuto :: bool

record movementData =
  path :: "node list"
  currentIndex :: nat
  isChargingTask :: bool

record movement =
  mAgvId :: agvId
  mFrom :: node
  mTo :: node
  mIsChargingTask :: bool
  newIndex :: nat

datatype event =
    AgvMovement agvId node int bool
  | AgvWaiting agvId "node option"
  | TaskCompleted agvId node bool
  | TaskCreated task "node list"
  | ChargingTaskCreated task "node list"
  | AgvCharging agvId int node
  | ChargingComplete agvId int node

record state =
  agvs :: "(agvId \<times> agv) list"
  tasks :: "task list"
  isRunning :: bool
  totalTasksCompleted :: nat
  occupiedNodes :: "node set"
  reservedNodes :: "(node \<times> agvId) list"
  movementQueue :: "(agvId \<times> movementData) list"
  broadcasts :: "event list"

definition CHARGING_NODE :: node where
  "CHARGING_NODE = 9"

definition LOW_BATTERY_THRESHOLD :: int where
  "LOW_BATTERY_THRESHOLD = 30"

definition CHARGING_RATE :: int where
  "CHARGING_RATE = 5"

definition MAX_BATTERY :: int where
  "MAX_BATTERY = 100"

subsection \<open>Topology and route search\<close>

type_synonym graph = "(node \<times> node list) list"

definition nodeGraph :: graph where
  "nodeGraph =
     [(1, [2, 4]), (2, [1, 3, 5]), (3, [2, 6]),
      (4, [1, 5, 7]), (5, [2, 4, 6, 8]), (6, [3, 5]),
      (7, [4, 8]), (8, [5, 7, 9]), (9, [8])]"

text \<open>\<open>graph[current] || []\<close>\<close>

definition neighborsOf :: "graph \<Rightarrow> node \<Rightarrow> node list" where
  "neighborsOf g n = (case map_of g n of None \<Rightarrow> [] | Some ns \<Rightarrow> ns)"

text \<open>
  The \<open>while (queue.length > 0)\<close> loop of \<open>findPath\<close>: \<open>None\<close> when the queue runs
  empty, \<open>Some path\<close> when the end node is taken from the queue.
\<close>

function findPathLoop ::
  "graph \<Rightarrow> node \<Rightarrow> node set \<Rightarrow> (node \<times> node list) list \<Rightarrow> node list option" where
  "findPathLoop g endN visited [] = None"
| "findPathLoop g endN visited ((current, pth) # queue) =
     (if current = endN then Some pth
      else if current \<in> visited then findPathLoop g endN visited queue
      else findPathLoop g endN (insert current visited)
             (queue @ map (\<lambda>neighbor. (neighbor, pth @ [neighbor]))
                        (filter (\<lambda>neighbor. neighbor \<notin> insert current visited)
                                (neighborsOf g current))))"
  by pat_completeness auto

lemma neighborsOf_outside: "n \<notin> fst ` set g \<Longrightarrow> neighborsOf g n = []"
  by (simp add: neighborsOf_def map_of_eq_None_iff [THEN iffD2])

termination findPathLoop
proof (relation "measures [\<lambda>(g, e, visited, queue). card (fst ` set g - visited),
                           \<lambda>(g, e, visited, queue). length queue]", goal_cases)
  case 1
  show ?case by simp
next
  case (2 g endN visited current pth queue)
  then show ?case by simp
next
  case (3 g endN visited current pth queue)
  show ?case
  proof (cases "current \<in> fst ` set g")
    case True
    have fin: "finite (fst ` set g - visited)" by simp
    have "fst ` set g - insert current visited \<subset> fst ` set g - visited"
      using True 3 by auto
    then have "card (fst ` set g - insert current visited) < card (fst ` set g - visited)"
      using fin by (rule psubset_card_mono [rotated])
    then show ?thesis by simp
  next
    case False
    then have "fst ` set g - insert current visited = fst ` set g - visited"
      by auto
    with False show ?thesis by (simp add: neighborsOf_outside)
  qed
qed

definition findPathIn :: "graph \<Rightarrow> node \<Rightarrow> node \<Rightarrow> node list" where
  "findPathIn g start endN =
     (if start = endN then [start]
      else case findPathLoop g endN {} [(start, [start])] of
             Some pth \<Rightarrow> pth
           | None \<Rightarrow> [start, endN])"

definition findPath :: "node \<Rightarrow> node \<Rightarrow> node list" where
  "findPath start endN = findPathIn nodeGraph start endN"

subsection \<open>Fleet access\<close>

definition getAgv :: "state \<Rightarrow> agvId \<Rightarrow> agv option" where
  "getAgv s agvId = map_of (agvs s) agvId"

definition setAgv :: "agvId \<Rightarrow> agv \<Rightarrow> state \<Rightarrow> state" where
  "setAgv agvId a s = s\<lparr>agvs := AList.update agvId a (agvs s)\<rparr>"

definition broadcast :: "event \<Rightarrow> state \<Rightarrow> state" where
  "broadcast e s = s\<lparr>broadcasts := broadcasts s @ [e]\<rparr>"

definition needsCharging :: "agv \<Rightarrow> bool" where
  "needsCharging a = (battery a \<le> LOW_BATTERY_THRESHOLD)"

subsection \<open>Charging\<close>

text \<open>
  \<open>startCharging\<close> marks the vehicle as charging and registers a 2-second interval;
  \<open>chargingStep\<close> is the body of that interval's callback, run by the timer for as
  long as the interval is registered.
\<close>

definition startCharging :: "agvId \<Rightarrow> state \<Rightarrow> state" where
  "startCharging agvId s =
     (case getAgv s agvId of
        None \<Rightarrow> s
      | Some a \<Rightarrow>
          if position a \<noteq> CHARGING_NODE then s
          else setAgv agvId (a\<lparr>status := Charging\<rparr>) s)"

definition chargingStep :: "agvId \<Rightarrow> state \<Rightarrow> state" where
  "chargingStep agvId s =
     (case getAgv s agvId of
        None \<Rightarrow> s
      | Some a \<Rightarrow>
          if battery a < MAX_BATTERY
          then broadcast
                 (AgvCharging agvId (min MAX_BATTERY (battery a + CHARGING_RATE)) (position a))
                 (setAgv agvId
                    (a\<lparr>battery := min MAX_BATTERY (battery a + CHARGING_RATE)\<rparr>) s)
          else broadcast (ChargingComplete agvId (battery a) (position a))
                 (setAgv agvId (a\<lparr>status := Idle\<rparr>) s))"

subsection \<open>Movement queue\<close>

definition simulateAGVMovement :: "agvId \<Rightarrow> node list \<Rightarrow> bool \<Rightarrow> state \<Rightarrow> state" where
  "simulateAGVMovement agvId pth isChargingT s =
     (if length pth \<le> 1 then s
      else
        let s1 = s\<lparr>movementQueue :=
                     AList.update agvId
                       \<lparr>path = pth, currentIndex = 0, isChargingTask = isChargingT\<rparr>
                       (movementQueue s)\<rparr>
        in case getAgv s1 agvId of
             None \<Rightarrow> s1
           | Some a \<Rightarrow>
               (setAgv agvId
                  (a\<lparr>status := (if isChargingT then ChargingRoute else Busy),
                     position := hd pth\<rparr>) s1)
               \<lparr>occupiedNodes := insert (hd pth) (occupiedNodes s1)\<rparr>)"

text \<open>
  \<open>completeAGVTask\<close>. The charging task it may schedule with \<open>setTimeout\<close> runs
  later, as a separate call of \<open>createChargingTask\<close>.
\<close>

definition completeAGVTask :: "agvId \<Rightarrow> node \<Rightarrow> bool \<Rightarrow> state \<Rightarrow> state" where
  "completeAGVTask agvId finalPosition isChargingT s =
     (case getAgv s agvId of
        None \<Rightarrow> s
      | Some a \<Rightarrow>
          let s1 = setAgv agvId (a\<lparr>position := finalPosition\<rparr>) s;
              s2 = (if isChargingT \<and> finalPosition = CHARGING_NODE
                    then startCharging agvId s1
                    else (setAgv agvId (a\<lparr>position := finalPosition, status := Idle\<rparr>) s1)
                           \<lparr>totalTasksCompleted := totalTasksCompleted s1 + 1\<rparr>)
          in broadcast (TaskCompleted agvId finalPosition isChargingT) s2)"

subsection \<open>The tick: \<open>coordinateSimultaneousMovement\<close>\<close>

definition pendingStep :: "movementData \<Rightarrow> bool" where
  "pendingStep md = (currentIndex md + 1 < length (path md))"

definition nextPosition :: "movementData \<Rightarrow> node" where
  "nextPosition md = path md ! (currentIndex md + 1)"

definition currentPosition :: "movementData \<Rightarrow> node" where
  "currentPosition md = path md ! currentIndex md"

text \<open>
  The planning loop over \<open>movementQueue.entries()\<close>. An entry at the end of its path is
  completed and deleted from the queue; every path in the queue has at least two nodes
  (\<open>simulateAGVMovement\<close> enqueues no shorter one), so \<open>path[path.length - 1]\<close> is
  \<open>last\<close>. Otherwise the step is admitted when the next node is neither occupied nor
  reserved in this tick.
\<close>

fun planMovements ::
  "(agvId \<times> movementData) list \<Rightarrow> state \<Rightarrow> movement list \<Rightarrow> state \<times> movement list" where
  "planMovements [] s ms = (s, ms)"
| "planMovements ((agvId, md) # rest) s ms =
     (if currentIndex md + 1 \<ge> length (path md) then
        planMovements rest
          ((completeAGVTask agvId (last (path md)) (isChargingTask md) s)
             \<lparr>movementQueue := AList.delete agvId (movementQueue s)\<rparr>) ms
      else if nextPosition md \<notin> occupiedNodes s
              \<and> nextPosition md \<notin> fst ` set (reservedNodes s) then
        planMovements rest
          (s\<lparr>reservedNodes := reservedNodes s @ [(nextPosition md, agvId)]\<rparr>)
          (ms @ [\<lparr>mAgvId = agvId, mFrom = currentPosition md, mTo = nextPosition md,
                   mIsChargingTask = isChargingTask md, newIndex = currentIndex md + 1\<rparr>])
      else planMovements rest s ms)"

definition drainBattery :: "bool \<Rightarrow> int \<Rightarrow> int" where
  "drainBattery isChargingT b = (if \<not> isChargingT then max 10 (b - 3) else max 10 (b - 1))"

definition executeMovement :: "movement \<Rightarrow> state \<Rightarrow> state" where
  "executeMovement m s =
     (case getAgv s (mAgvId m) of
        None \<Rightarrow> s
      | Some a \<Rightarrow>
          let a' = a\<lparr>position := mTo m,
                      battery := drainBattery (mIsChargingTask m) (battery a)\<rparr>;
              s1 = (setAgv (mAgvId m) a' s)
                     \<lparr>occupiedNodes := insert (mTo m) (occupiedNodes s - {mFrom m})\<rparr>;
              s2 = (case map_of (movementQueue s1) (mAgvId m) of
                      None \<Rightarrow> s1
                    | Some md \<Rightarrow>
                        s1\<lparr>movementQueue :=
                             AList.update (mAgvId m) (md\<lparr>currentIndex := newIndex m\<rparr>)
                               (movementQueue s1)\<rparr>)
          in broadcast (AgvMovement (mAgvId m) (mTo m) (battery a') (mIsChargingTask m)) s2)"

definition planTick :: "state \<Rightarrow> state \<times> movement list" where
  "planTick s = planMovements (movementQueue s) (s\<lparr>reservedNodes := []\<rparr>) []"

definition movementsToExecute :: "state \<Rightarrow> movement list" where
  "movementsToExecute s = snd (planTick s)"

definition coordinateSimultaneousMovement :: "state \<Rightarrow> state" where
  "coordinateSimultaneousMovement s =
     (let s1 = fst (planTick s);
          moves = movementsToExecute s;
          s2 = fold executeMovement moves s1;
          waiting = filter (\<lambda>(agvId, md). agvId \<notin> mAgvId ` set moves) (movementQueue s2)
      in s2\<lparr>broadcasts := broadcasts s2 @
               map (\<lambda>(agvId, md). AgvWaiting agvId (map_option position (getAgv s2 agvId)))
                   waiting\<rparr>)"

subsection \<open>Task creation\<close>

definition createChargingTask :: "agvId \<Rightarrow> state \<Rightarrow> state" where
  "createChargingTask agvId s =
     (case getAgv s agvId of
        None \<Rightarrow> s
      | Some a \<Rightarrow>
          if status a \<noteq> Idle then s
          else if position a = CHARGING_NODE then startCharging agvId s
          else
            let chargingTask =
                  \<lparr>startNode = position a, endNode = CHARGING_NODE, weight = 0,
                   priority = ''charging'', taskAgv = agvId, isCharging = True,
                   isAuto = False\<rparr>;
                s1 = (setAgv agvId (a\<lparr>status := ChargingRoute\<rparr>) s)
                       \<lparr>tasks := tasks s @ [chargingTask]\<rparr>;
                pth = findPath (position a) CHARGING_NODE;
                s2 = simulateAGVMovement agvId pth True s1
            in broadcast (ChargingTaskCreated chargingTask pth) s2)"

datatype error =
    MissingFields
  | SameStartEnd
  | NodesOutOfRange
  | NoAvailableAGV

text \<open>
  \<open>availableAGVs.reduce((best, current) => current.battery > best.battery ? current : best)\<close>,
  on a non-empty array.
\<close>

definition selectBest :: "(agvId \<times> agv) list \<Rightarrow> (agvId \<times> agv)" where
  "selectBest available =
     foldl (\<lambda>best current. if battery (snd current) > battery (snd best) then current else best)
           (hd available) (tl available)"

definition availableAGVs :: "state \<Rightarrow> (agvId \<times> agv) list" where
  "availableAGVs s = filter (\<lambda>(i, a). status a = Idle \<and> \<not> needsCharging a) (agvs s)"

definition createTaskInternal ::
  "node \<Rightarrow> node \<Rightarrow> int \<Rightarrow> string \<Rightarrow> bool \<Rightarrow> state \<Rightarrow> state \<times> (error + task)" where
  "createTaskInternal startN endN w prio auto s =
     (if availableAGVs s = [] then
        let agvsNeedingCharge =
              filter (\<lambda>(i, a). status a = Idle \<and> needsCharging a) (agvs s)
        in (fold (\<lambda>(i, a). createChargingTask i) agvsNeedingCharge s, Inl NoAvailableAGV)
      else
        let (selectedId, selectedAGV) = selectBest (availableAGVs s);
            t = \<lparr>startNode = startN, endNode = endN, weight = w, priority = prio,
                 taskAgv = selectedId, isCharging = False, isAuto = auto\<rparr>;
            s1 = (setAgv selectedId (selectedAGV\<lparr>status := Busy, position := startN\<rparr>) s)
                   \<lparr>tasks := tasks s @ [t]\<rparr>;
            pth = findPath startN endN;
            s2 = simulateAGVMovement selectedId pth False s1
        in (broadcast (TaskCreated t pth) s2, Inr t))"

subsection \<open>Values of a request body\<close>

text \<open>
  \<open>POST /api/tasks/create\<close> reads \<open>startNode\<close>, \<open>endNode\<close> and \<open>weight\<close> from the JSON
  body as they come: a field is absent (\<open>undefined\<close>), \<open>null\<close>, a boolean, a number, a
  string, or an array or object. A number is a finite double, held as its exact value. A
  string is the list of its code units, taken below 256. Of an array or object only its
  conversion to a string is used by the handler: \<open>JObject s\<close> is the array or object
  whose \<open>toString()\<close> is \<open>s\<close>, as \<open>[5]\<close> with \<open>5\<close>. The result of a conversion to a
  number is a double, \<open>NaN\<close> or an infinity; a negative zero is not told from zero.
\<close>

datatype jsValue =
    JUndefined
  | JNull
  | JBoolean bool
  | JNumber rat
  | JString string
  | JObject string

datatype jsNumber = Finite rat | NaN | PlusInfinity | MinusInfinity

text \<open>\<open>!x\<close>\<close>

fun falsy :: "jsValue \<Rightarrow> bool" where
  "falsy JUndefined = True"
| "falsy JNull = True"
| "falsy (JBoolean b) = (\<not> b)"
| "falsy (JNumber x) = (x = 0)"
| "falsy (JString s) = (s = [])"
| "falsy (JObject s) = False"

text \<open>
  \<open>x === y\<close>: values of different types are not equal, and neither are two arrays or
  objects of a parsed body, which are distinct objects.
\<close>

fun strictEquals :: "jsValue \<Rightarrow> jsValue \<Rightarrow> bool" where
  "strictEquals JUndefined JUndefined = True"
| "strictEquals JNull JNull = True"
| "strictEquals (JBoolean a) (JBoolean b) = (a = b)"
| "strictEquals (JNumber x) (JNumber y) = (x = y)"
| "strictEquals (JString s) (JString t) = (s = t)"
| "strictEquals _ _ = False"

text \<open>
  Rounding of a rational to the nearest double, ties to even: 53 significant bits from
  the exponent -1022 on, below it the fixed step \<open>2^-1074\<close>, and an infinity from
  \<open>2^1024\<close> on.
\<close>

function bitLength :: "int \<Rightarrow> int" where
  "bitLength n = (if n \<le> 0 then 0 else 1 + bitLength (n div 2))"
  by pat_completeness auto

termination bitLength
  by (relation "measure nat") auto

declare bitLength.simps [simp del]

text \<open>The \<open>e\<close> with \<open>2^e \<le> a < 2^(e+1)\<close>, for a positive \<open>a\<close>.\<close>

definition binaryExponent :: "rat \<Rightarrow> int" where
  "binaryExponent a =
     (if 1 \<le> a then bitLength \<lfloor>a\<rfloor> - 1 else - bitLength (\<lceil>1 / a\<rceil> - 1))"

definition twoTo :: "int \<Rightarrow> rat" where
  "twoTo e = (if 0 \<le> e then 2 ^ nat e else 1 / 2 ^ nat (- e))"

definition roundToDouble :: "rat \<Rightarrow> jsNumber" where
  "roundToDouble x =
     (if x = 0 then Finite 0
      else
        let a = \<bar>x\<bar>;
            e = max (binaryExponent a) (- 1022);
            ulp = twoTo (e - 52);
            q = a / ulp;
            f = \<lfloor>q\<rfloor>;
            m = (if q - of_int f > 1 / 2 \<or> (q - of_int f = 1 / 2 \<and> odd f) then f + 1 else f);
            y = of_int m * ulp
        in if twoTo 1024 \<le> y then (if 0 < x then PlusInfinity else MinusInfinity)
           else Finite (if 0 < x then y else - y))"

text \<open>
  White space and line terminators among the code units below 256; digits and their
  values up to radix 16.
\<close>

definition isWhiteSpace :: "char \<Rightarrow> bool" where
  "isWhiteSpace c =
     (c \<in> set [CHR 0x09, CHR 0x0A, CHR 0x0B, CHR 0x0C, CHR 0x0D, CHR 0x20, CHR 0xA0])"

definition trim :: "string \<Rightarrow> string" where
  "trim s = rev (dropWhile isWhiteSpace (rev (dropWhile isWhiteSpace s)))"

definition digitOf :: "char \<Rightarrow> nat option" where
  "digitOf c =
     (let n = (of_char c :: nat) in
      if 48 \<le> n \<and> n \<le> 57 then Some (n - 48)
      else if 97 \<le> n \<and> n \<le> 102 then Some (n - 87)
      else if 65 \<le> n \<and> n \<le> 70 then Some (n - 55)
      else None)"

definition isDigit :: "nat \<Rightarrow> char \<Rightarrow> bool" where
  "isDigit radix c = (case digitOf c of None \<Rightarrow> False | Some d \<Rightarrow> d < radix)"

definition digitsValue :: "nat \<Rightarrow> string \<Rightarrow> int" where
  "digitsValue radix ds = foldl (\<lambda>acc c. acc * int radix + int (the (digitOf c))) 0 ds"

text \<open>A leading \<open>-\<close> or \<open>+\<close>: whether the sign is negative, and the rest.\<close>

fun signOf :: "string \<Rightarrow> bool \<times> string" where
  "signOf [] = (False, [])"
| "signOf (c # r) =
     (if c = CHR ''-'' then (True, r) else if c = CHR ''+'' then (False, r) else (False, c # r))"

text \<open>
  The conversion of a string to a number (\<open>StringToNumber\<close>): white space is trimmed at
  both ends; the empty string is 0; a literal \<open>0x\<close>, \<open>0o\<close> or \<open>0b\<close> with digits of its
  radix, or an optionally signed \<open>Infinity\<close> or decimal literal (digits, an optional
  fraction, an optional exponent) is its value rounded to a double; anything else is
  \<open>NaN\<close>.
\<close>

definition nonDecimalLiteral :: "string \<Rightarrow> int option" where
  "nonDecimalLiteral s =
     (case s of
        z # x # ds \<Rightarrow>
          let radix = (if x = CHR ''x'' \<or> x = CHR ''X'' then 16
                       else if x = CHR ''o'' \<or> x = CHR ''O'' then 8
                       else if x = CHR ''b'' \<or> x = CHR ''B'' then 2 else 0)
          in if z = CHR ''0'' \<and> radix \<noteq> 0 \<and> ds \<noteq> [] \<and> list_all (isDigit radix) ds
             then Some (digitsValue radix ds) else None
      | _ \<Rightarrow> None)"

text \<open>The exponent of a decimal literal: \<open>Some 0\<close> if there is none, \<open>None\<close> if malformed.\<close>

definition exponentPart :: "string \<Rightarrow> int option" where
  "exponentPart r =
     (case r of
        [] \<Rightarrow> Some 0
      | c # r1 \<Rightarrow>
          if c = CHR ''e'' \<or> c = CHR ''E'' then
            (let (negative, ds) = signOf r1
             in if ds \<noteq> [] \<and> list_all (isDigit 10) ds
                then Some (if negative then - digitsValue 10 ds else digitsValue 10 ds)
                else None)
          else None)"

definition scale10 :: "rat \<Rightarrow> int \<Rightarrow> rat" where
  "scale10 m k = (if 0 \<le> k then m * 10 ^ nat k else m / 10 ^ nat (- k))"

definition decimalLiteral :: "string \<Rightarrow> rat option" where
  "decimalLiteral u =
     (let ip = takeWhile (isDigit 10) u;
          r1 = dropWhile (isDigit 10) u;
          (fp, r2) = (case r1 of
                        [] \<Rightarrow> ([], [])
                      | c # r \<Rightarrow>
                          if c = CHR ''.''
                          then (takeWhile (isDigit 10) r, dropWhile (isDigit 10) r)
                          else ([], r1))
      in if ip = [] \<and> fp = [] then None
         else case exponentPart r2 of
                None \<Rightarrow> None
              | Some e \<Rightarrow>
                  Some (scale10 (of_int (digitsValue 10 (ip @ fp))) (e - int (length fp))))"

definition stringToNumber :: "string \<Rightarrow> jsNumber" where
  "stringToNumber str =
     (let s = trim str in
      if s = [] then Finite 0
      else case nonDecimalLiteral s of
             Some n \<Rightarrow> roundToDouble (of_int n)
           | None \<Rightarrow>
               let (negative, u) = signOf s in
               if u = ''Infinity'' then (if negative then MinusInfinity else PlusInfinity)
               else case decimalLiteral u of
                      None \<Rightarrow> NaN
                    | Some v \<Rightarrow> roundToDouble (if negative then - v else v))"

text \<open>\<open>ToNumber\<close>, which \<open><\<close> and \<open>>\<close> apply to an operand compared with a number.\<close>

fun toNumber :: "jsValue \<Rightarrow> jsNumber" where
  "toNumber JUndefined = NaN"
| "toNumber JNull = Finite 0"
| "toNumber (JBoolean b) = Finite (if b then 1 else 0)"
| "toNumber (JNumber x) = Finite x"
| "toNumber (JString s) = stringToNumber s"
| "toNumber (JObject s) = stringToNumber s"

text \<open>\<open>x < y\<close> on numbers: false if either is \<open>NaN\<close>.\<close>

fun lessThanNumber :: "jsNumber \<Rightarrow> jsNumber \<Rightarrow> bool" where
  "lessThanNumber (Finite a) (Finite b) = (a < b)"
| "lessThanNumber (Finite a) PlusInfinity = True"
| "lessThanNumber MinusInfinity (Finite b) = True"
| "lessThanNumber MinusInfinity PlusInfinity = True"
| "lessThanNumber _ _ = False"

text \<open>
  \<open>parseInt\<close> of a string: leading white space is skipped, then a sign, then \<open>0x\<close> or
  \<open>0X\<close> selects radix 16; the longest run of digits of the radix is the value, rounded
  to a double, and \<open>NaN\<close> if the run is empty.
\<close>

definition parseIntString :: "string \<Rightarrow> jsNumber" where
  "parseIntString str =
     (let (negative, s1) = signOf (dropWhile isWhiteSpace str);
          (radix, s2) = (case s1 of
                           a # b # r \<Rightarrow>
                             if a = CHR ''0'' \<and> (b = CHR ''x'' \<or> b = CHR ''X'') then (16, r)
                             else (10, s1)
                         | _ \<Rightarrow> (10, s1));
          z = takeWhile (isDigit radix) s2
      in if z = [] then NaN
         else roundToDouble
                (if negative then - of_int (digitsValue radix z) else of_int (digitsValue radix z)))"

text \<open>
  \<open>parseInt\<close> converts its argument to a string first. The strings of \<open>undefined\<close>,
  \<open>null\<close> and the booleans hold no digit. The string of a number from the double
  nearest \<open>10^-6\<close> up to \<open>10^21\<close> in magnitude is written without an exponent, so that
  \<open>parseInt\<close> cuts off its fraction; a number outside that range is written with an
  exponent, and its \<open>parseInt\<close> is not modelled (\<open>None\<close>).
\<close>

fun parseInt :: "jsValue \<Rightarrow> jsNumber option" where
  "parseInt JUndefined = Some NaN"
| "parseInt JNull = Some NaN"
| "parseInt (JBoolean b) = Some NaN"
| "parseInt (JString s) = Some (parseIntString s)"
| "parseInt (JObject s) = Some (parseIntString s)"
| "parseInt (JNumber x) =
     (if x = 0 then Some (Finite 0)
      else if \<not> lessThanNumber (Finite \<bar>x\<bar>) (roundToDouble (1 / 10 ^ 6)) \<and> \<bar>x\<bar> < 10 ^ 21
        then Some (Finite (of_int (if 0 \<le> x then \<lfloor>x\<rfloor> else \<lceil>x\<rceil>)))
      else None)"

text \<open>
  \<open>POST /api/tasks/create\<close>. \<open>priority\<close> is a string or absent and defaults to
  \<open>'medium'\<close>. The three checks run on the values of the body as they are;
  \<open>createTaskInternal\<close> is then called with their \<open>parseInt\<close>. The records of this
  model hold integers: the result is \<open>None\<close> where the handler calls
  \<open>createTaskInternal\<close> with \<open>NaN\<close> or an infinity, or with the \<open>parseInt\<close> of a number
  written with an exponent.
\<close>

definition apiTasksCreate ::
  "jsValue \<Rightarrow> jsValue \<Rightarrow> jsValue \<Rightarrow> string option \<Rightarrow> state
     \<Rightarrow> (state \<times> (error + task)) option" where
  "apiTasksCreate startN endN w prio s =
     (if falsy startN \<or> falsy endN \<or> falsy w then Some (s, Inl MissingFields)
      else if strictEquals startN endN then Some (s, Inl SameStartEnd)
      else if lessThanNumber (toNumber startN) (Finite 1) \<or> lessThanNumber (Finite 9) (toNumber startN)
              \<or> lessThanNumber (toNumber endN) (Finite 1) \<or> lessThanNumber (Finite 9) (toNumber endN)
        then Some (s, Inl NodesOutOfRange)
      else case (parseInt startN, parseInt endN, parseInt w) of
             (Some (Finite a), Some (Finite b), Some (Finite c)) \<Rightarrow>
               Some (createTaskInternal \<lfloor>a\<rfloor> \<lfloor>b\<rfloor> \<lfloor>c\<rfloor>
                       (case prio of None \<Rightarrow> ''medium'' | Some p \<Rightarrow> p) False s)
           | _ \<Rightarrow> None)"

text \<open>
  The older auto-task timer (every 5 seconds): its random draws are the arguments. It
  gives the task no priority (the empty string here) and hands it to no coordinator: the
  completion it schedules with \<open>setTimeout\<close> is a later, separate step.
  \<open>getAvailableAGV\<close> returns the first idle vehicle.
\<close>

definition getAvailableAGV :: "state \<Rightarrow> agvId option" where
  "getAvailableAGV s =
     (case filter (\<lambda>(i, a). status a = Idle) (agvs s) of
        [] \<Rightarrow> None
      | (i, a) # rest \<Rightarrow> Some i)"

definition autoTaskTimer :: "node \<Rightarrow> node \<Rightarrow> int \<Rightarrow> state \<Rightarrow> state" where
  "autoTaskTimer startN endN w s =
     (if \<not> isRunning s then s
      else case getAvailableAGV s of
             None \<Rightarrow> s
           | Some availableAGV \<Rightarrow>
               (case getAgv s availableAGV of
                  None \<Rightarrow> s
                | Some a \<Rightarrow>
                    let autoTask =
                          \<lparr>startNode = startN, endNode = endN, weight = w, priority = [],
                           taskAgv = availableAGV, isCharging = False, isAuto = True\<rparr>;
                        s1 = s\<lparr>tasks := tasks s @ [autoTask]\<rparr>;
                        s2 = setAgv availableAGV (a\<lparr>status := Executing, position := startN\<rparr>) s1
                    in broadcast (TaskCreated autoTask []) s2))"

subsection \<open>Start of the simulation\<close>

definition initialState :: state where
  "initialState =
     \<lparr>agvs = [(''AGV1'', \<lparr>position = 1, battery = 100, status = Idle\<rparr>),
              (''AGV2'', \<lparr>position = 5, battery = 85, status = Idle\<rparr>),
              (''AGV3'', \<lparr>position = 9, battery = 92, status = Idle\<rparr>)],
      tasks = [], isRunning = False, totalTasksCompleted = 0,
      occupiedNodes = {}, reservedNodes = [], movementQueue = [], broadcasts = []\<rparr>"

definition initializeGlobalMovement :: "state \<Rightarrow> state" where
  "initializeGlobalMovement s =
     s\<lparr>occupiedNodes := set (map (\<lambda>(i, a). position a) (agvs s)), reservedNodes := []\<rparr>"

text \<open>\<open>POST /api/simulation/start\<close>\<close>

definition simulationStart :: "state \<Rightarrow> state" where
  "simulationStart s = initializeGlobalMovement (s\<lparr>isRunning := True\<rparr>)"

section \<open>The scheduling service\<close>

text \<open>
  The second service of the repository: a fleet whose vehicles carry a configured
  routing algorithm and priority, route search by A* and by Dijkstra with time windows,
  scored assignment of tasks, and advisory conflict detection and resolution.
\<close>

datatype jsError = TypeError

text \<open>A JavaScript number that is a count or \<open>Infinity\<close>; \<open>None\<close> stands for \<open>undefined\<close>.\<close>

datatype jsnum = Num nat | Infinity

fun jsLess :: "jsnum option \<Rightarrow> jsnum option \<Rightarrow> bool" where
  "jsLess (Some (Num a)) (Some (Num b)) = (a < b)"
| "jsLess (Some (Num a)) (Some Infinity) = True"
| "jsLess _ _ = False"

fun jsSucc :: "jsnum option \<Rightarrow> jsnum option" where
  "jsSucc (Some (Num a)) = Some (Num (a + 1))"
| "jsSucc (Some Infinity) = Some Infinity"
| "jsSucc None = None"

definition nodeConnections :: graph where
  "nodeConnections =
     [(1, [2, 4]), (2, [1, 3, 5]), (3, [2, 6]),
      (4, [1, 7]), (5, [2, 6, 8]), (6, [3, 5]),
      (7, [4, 8]), (8, [5, 7, 9]), (9, [8])]"

definition positions :: "(node \<times> (int \<times> int)) list" where
  "positions =
     [(1, (0, 0)), (2, (1, 0)), (3, (2, 0)),
      (4, (0, 1)), (5, (1, 1)), (6, (2, 1)),
      (7, (0, 2)), (8, (1, 2)), (9, (2, 2))]"

text \<open>
  \<open>heuristic\<close>: destructuring \<open>positions[node]\<close> of a node outside the table throws a
  \<open>TypeError\<close>.
\<close>

definition heuristic :: "node \<Rightarrow> node \<Rightarrow> jsError + int" where
  "heuristic node1 node2 =
     (case map_of positions node1 of
        None \<Rightarrow> Inl TypeError
      | Some (x1, y1) \<Rightarrow>
          (case map_of positions node2 of
             None \<Rightarrow> Inl TypeError
           | Some (x2, y2) \<Rightarrow> Inr (\<bar>x1 - x2\<bar> + \<bar>y1 - y2\<bar>)))"

text \<open>
  \<open>reconstructPath\<close> follows \<open>cameFrom\<close> back for as long as the current node has an
  entry; on a cyclic map it does not return (\<open>None\<close>).
\<close>

partial_function (option) reconstructLoop ::
  "(node \<times> node) list \<Rightarrow> node \<Rightarrow> node list \<Rightarrow> node list option" where
  "reconstructLoop came current pth =
     (case map_of came current of
        None \<Rightarrow> Some pth
      | Some prev \<Rightarrow> reconstructLoop came prev (prev # pth))"

declare reconstructLoop.simps [code]

definition reconstructPath :: "(node \<times> node) list \<Rightarrow> node \<Rightarrow> node list option" where
  "reconstructPath came current = reconstructLoop came current [current]"

subsection \<open>A*\<close>

record astar =
  openSet :: "(node \<times> int) list"
  closedSet :: "node set"
  cameFrom :: "(node \<times> node) list"
  gScore :: "(node \<times> jsnum) list"

text \<open>The body of \<open>for (const neighbor of neighbors)\<close>.\<close>

definition visitNeighbor :: "node \<Rightarrow> node list \<Rightarrow> node \<Rightarrow> node \<Rightarrow> astar \<Rightarrow> jsError + astar" where
  "visitNeighbor endN avoidNodes current neighbor st =
     (if neighbor \<in> closedSet st \<or> neighbor \<in> set avoidNodes then Inr st
      else case jsSucc (map_of (gScore st) current) of
             Some (Num tentativeGScore) \<Rightarrow>
               if jsLess (Some (Num tentativeGScore)) (map_of (gScore st) neighbor) then
                 (case heuristic neighbor endN of
                    Inl e \<Rightarrow> Inl e
                  | Inr h \<Rightarrow>
                      Inr (st\<lparr>cameFrom := AList.update neighbor current (cameFrom st),
                              gScore := AList.update neighbor (Num tentativeGScore) (gScore st),
                              openSet :=
                                (if neighbor \<in> fst ` set (openSet st) then openSet st
                                 else openSet st @ [(neighbor, int tentativeGScore + h)])\<rparr>))
               else Inr st
           | _ \<Rightarrow> Inr st)"

fun visitNeighbors ::
  "node \<Rightarrow> node list \<Rightarrow> node \<Rightarrow> node list \<Rightarrow> astar \<Rightarrow> jsError + astar" where
  "visitNeighbors endN avoidNodes current [] st = Inr st"
| "visitNeighbors endN avoidNodes current (neighbor # rest) st =
     (case visitNeighbor endN avoidNodes current neighbor st of
        Inl e \<Rightarrow> Inl e
      | Inr st' \<Rightarrow> visitNeighbors endN avoidNodes current rest st')"

text \<open>Measures for the termination of the search loop.\<close>

definition infiniteCount :: "(node \<times> jsnum) list \<Rightarrow> nat" where
  "infiniteCount gs = length (filter (\<lambda>(k, v). v = Infinity) gs)"

definition finiteSum :: "(node \<times> jsnum) list \<Rightarrow> nat" where
  "finiteSum gs = sum_list (map (\<lambda>(k, v). case v of Num n \<Rightarrow> n | Infinity \<Rightarrow> 0) gs)"

lemma update_from_Infinity:
  "map_of gs k = Some Infinity \<Longrightarrow>
     infiniteCount (AList.update k (Num t) gs) < infiniteCount gs"
  by (induction gs) (auto simp: infiniteCount_def split: if_splits)

lemma update_from_Num:
  "map_of gs k = Some (Num b) \<Longrightarrow> t < b \<Longrightarrow>
     infiniteCount (AList.update k (Num t) gs) = infiniteCount gs
     \<and> finiteSum (AList.update k (Num t) gs) < finiteSum gs"
  by (induction gs) (auto simp: infiniteCount_def finiteSum_def split: if_splits)

definition searchLess :: "astar \<Rightarrow> astar \<Rightarrow> bool" where
  "searchLess st' st =
     (infiniteCount (gScore st') < infiniteCount (gScore st)
      \<or> (infiniteCount (gScore st') = infiniteCount (gScore st)
          \<and> finiteSum (gScore st') < finiteSum (gScore st)))"

lemma searchLess_trans: "searchLess a b \<Longrightarrow> searchLess b c \<Longrightarrow> searchLess a c"
  by (auto simp: searchLess_def)

lemma visitNeighbor_measure:
  assumes "visitNeighbor endN avoidNodes current neighbor st = Inr st'"
  shows "st' = st \<or> searchLess st' st"
proof (cases "neighbor \<in> closedSet st \<or> neighbor \<in> set avoidNodes")
  case True
  with assms show ?thesis by (simp add: visitNeighbor_def)
next
  case False
  show ?thesis
  proof (cases "jsSucc (map_of (gScore st) current)")
    case None
    with assms False show ?thesis by (simp add: visitNeighbor_def)
  next
    case (Some v)
    show ?thesis
    proof (cases v)
      case Infinity
      with assms False Some show ?thesis by (simp add: visitNeighbor_def)
    next
      case (Num t)
      show ?thesis
      proof (cases "jsLess (Some (Num t)) (map_of (gScore st) neighbor)")
        case False
        with assms \<open>\<not> (neighbor \<in> closedSet st \<or> neighbor \<in> set avoidNodes)\<close> Some Num
        show ?thesis by (simp add: visitNeighbor_def)
      next
        case True
        then obtain old where old: "map_of (gScore st) neighbor = Some old"
          by (cases "map_of (gScore st) neighbor") auto
        from assms \<open>\<not> (neighbor \<in> closedSet st \<or> neighbor \<in> set avoidNodes)\<close> Some Num True
        have g': "gScore st' = AList.update neighbor (Num t) (gScore st)"
          by (auto simp: visitNeighbor_def split: sum.splits)
        have "searchLess st' st"
        proof (cases old)
          case Infinity
          with old update_from_Infinity [of "gScore st" neighbor t] show ?thesis
            by (simp add: searchLess_def g')
        next
          case (Num b)
          with old True have "t < b" by simp
          with old Num update_from_Num [of "gScore st" neighbor b t] show ?thesis
            by (simp add: searchLess_def g')
        qed
        then show ?thesis ..
      qed
    qed
  qed
qed

lemma visitNeighbors_measure:
  "visitNeighbors endN avoidNodes current ns st = Inr st' \<Longrightarrow> st' = st \<or> searchLess st' st"
proof (induction ns arbitrary: st)
  case Nil
  then show ?case by simp
next
  case (Cons n ns)
  from Cons.prems obtain st1 where
    1: "visitNeighbor endN avoidNodes current n st = Inr st1"
    and 2: "visitNeighbors endN avoidNodes current ns st1 = Inr st'"
    by (auto split: sum.splits)
  from visitNeighbor_measure [OF 1] Cons.IH [OF 2] show ?case
    by (auto intro: searchLess_trans)
qed

text \<open>
  The \<open>while (openSet.length > 0)\<close> loop: sort the open set by \<open>fScore\<close> (the sort is
  stable), take its first node, return the reconstructed path at the end node, otherwise
  close the node and visit its neighbors.
\<close>

function aStarLoop ::
  "graph \<Rightarrow> node \<Rightarrow> node list \<Rightarrow> astar \<Rightarrow> (jsError + node list) option" where
  "aStarLoop g endN avoidNodes st =
     (case sort_key snd (openSet st) of
        [] \<Rightarrow> Some (Inr [])
      | (current, f) # rest \<Rightarrow>
          if current = endN then map_option Inr (reconstructPath (cameFrom st) current)
          else case visitNeighbors endN avoidNodes current (neighborsOf g current)
                      (st\<lparr>openSet := rest, closedSet := insert current (closedSet st)\<rparr>) of
                 Inl e \<Rightarrow> Some (Inl e)
               | Inr st' \<Rightarrow> aStarLoop g endN avoidNodes st')"
  by pat_completeness auto

termination aStarLoop
proof (relation "measures [\<lambda>(g, e, av, st). infiniteCount (gScore st),
                           \<lambda>(g, e, av, st). finiteSum (gScore st),
                           \<lambda>(g, e, av, st). length (openSet st)]", goal_cases)
  case 1
  show ?case by simp
next
  case (2 g endN avoidNodes st x21 x22 current f st')
  let ?st0 = "st\<lparr>openSet := x22, closedSet := insert current (closedSet st)\<rparr>"
  have len: "length (openSet st) = Suc (length x22)"
    using 2(1) by (metis length_Cons length_sort)
  from visitNeighbors_measure [OF 2(4)] show ?case
  proof
    assume "st' = ?st0"
    with len show ?thesis by simp
  next
    assume "searchLess st' ?st0"
    then show ?thesis by (auto simp: searchLess_def)
  qed
qed

declare aStarLoop.simps [simp del]

definition initialGScore :: "node \<Rightarrow> (node \<times> jsnum) list" where
  "initialGScore start = AList.update start (Num 0) (map (\<lambda>i. (i, Infinity)) [1..9])"

definition aStarPathfindingIn ::
  "graph \<Rightarrow> node \<Rightarrow> node \<Rightarrow> node list \<Rightarrow> (jsError + node list) option" where
  "aStarPathfindingIn g start endN avoidNodes =
     (case heuristic start endN of
        Inl e \<Rightarrow> Some (Inl e)
      | Inr h \<Rightarrow>
          aStarLoop g endN avoidNodes
            \<lparr>openSet = [(start, h)], closedSet = {}, cameFrom = [],
             gScore = initialGScore start\<rparr>)"

definition aStarPathfinding :: "node \<Rightarrow> node \<Rightarrow> node list \<Rightarrow> (jsError + node list) option" where
  "aStarPathfinding start endN avoidNodes = aStarPathfindingIn nodeConnections start endN avoidNodes"

subsection \<open>Dijkstra with time windows\<close>

record dijkstra =
  distances :: "(node \<times> jsnum) list"
  previous :: "(node \<times> node) list"
  unvisited :: "node list"

text \<open>
  \<open>occupiedSlots\<close> maps a node to the times of its reserved slots (milliseconds); a slot
  within 5 minutes of the arrival time blocks the node.
\<close>

definition isTimeSlotAvailable :: "node \<Rightarrow> int \<Rightarrow> (node \<times> int list) list \<Rightarrow> bool" where
  "isTimeSlotAvailable n time occupiedSlots =
     (let nodeSlots = (case map_of occupiedSlots n of None \<Rightarrow> [] | Some slots \<Rightarrow> slots)
      in \<not> list_ex (\<lambda>slot. \<bar>slot - time\<bar> < 5 * 60 * 1000) nodeSlots)"

text \<open>
  The scan \<open>for (const node of unvisited)\<close> for the unvisited node of least distance,
  from \<open>current = null\<close>, \<open>minDistance = Infinity\<close>.
\<close>

definition closest :: "(node \<times> jsnum) list \<Rightarrow> node list \<Rightarrow> node option" where
  "closest dist unv =
     fst (foldl (\<lambda>(current, minDistance) n.
                   if jsLess (map_of dist n) (Some minDistance)
                   then (Some n, the (map_of dist n)) else (current, minDistance))
                (None, Infinity) unv)"

definition relaxNeighbor ::
  "int \<Rightarrow> (node \<times> int list) list \<Rightarrow> node \<Rightarrow> node \<Rightarrow> dijkstra \<Rightarrow> dijkstra" where
  "relaxNeighbor windowStart occupiedSlots current neighbor st =
     (if neighbor \<notin> set (unvisited st) then st
      else case jsSucc (map_of (distances st) current) of
             Some (Num alt) \<Rightarrow>
               let arrivalTime = windowStart + int alt * 5 * 60 * 1000 in
               if isTimeSlotAvailable neighbor arrivalTime occupiedSlots
                  \<and> jsLess (Some (Num alt)) (map_of (distances st) neighbor)
               then st\<lparr>distances := AList.update neighbor (Num alt) (distances st),
                       previous := AList.update neighbor current (previous st)\<rparr>
               else st
           | _ \<Rightarrow> st)"

lemma closest_member_aux:
  "fst (foldl (\<lambda>(current, minDistance) n.
                   if jsLess (map_of dist n) (Some minDistance)
                   then (Some n, the (map_of dist n)) else (current, minDistance))
                acc unv) = Some c \<Longrightarrow> c \<in> set unv \<or> fst acc = Some c"
proof (induction unv arbitrary: acc)
  case Nil
  then show ?case by simp
next
  case (Cons n unv)
  obtain cur m where acc: "acc = (cur, m)" by (cases acc)
  from Cons.IH [of "if jsLess (map_of dist n) (Some m) then (Some n, the (map_of dist n))
                     else (cur, m)"] Cons.prems
  show ?case unfolding acc by (auto split: if_splits)
qed

lemma closest_member: "closest dist unv = Some c \<Longrightarrow> c \<in> set unv"
  using closest_member_aux [of dist "(None, Infinity)" unv c] by (simp add: closest_def)

lemma unvisited_relax:
  "unvisited (fold (relaxNeighbor ws slots current) ns st) = unvisited st"
proof (induction ns arbitrary: st)
  case Nil
  show ?case by simp
next
  case (Cons n ns)
  have "unvisited (relaxNeighbor ws slots current n st) = unvisited st"
    by (simp add: relaxNeighbor_def Let_def split: option.splits jsnum.splits)
  with Cons show ?case by simp
qed

text \<open>
  The \<open>while (unvisited.size > 0)\<close> loop; it ends when no unvisited node has a finite
  distance (in particular when none is left) or when the closest one is the end node.
\<close>

function dijkstraLoop ::
  "graph \<Rightarrow> node \<Rightarrow> int \<Rightarrow> (node \<times> int list) list \<Rightarrow> dijkstra \<Rightarrow> dijkstra" where
  "dijkstraLoop g endN windowStart occupiedSlots st =
     (case closest (distances st) (unvisited st) of
        None \<Rightarrow> st
      | Some current \<Rightarrow>
          if current = endN then st
          else dijkstraLoop g endN windowStart occupiedSlots
                 (fold (relaxNeighbor windowStart occupiedSlots current) (neighborsOf g current)
                       (st\<lparr>unvisited := removeAll current (unvisited st)\<rparr>)))"
  by pat_completeness auto

termination dijkstraLoop
proof (relation "measure (\<lambda>(g, e, ws, slots, st). length (unvisited st))", goal_cases)
  case 1
  show ?case by simp
next
  case (2 g endN windowStart occupiedSlots st current)
  from closest_member [OF 2(1)] have "length (removeAll current (unvisited st)) < length (unvisited st)"
    by (simp add: length_removeAll_less)
  then show ?case by (simp add: unvisited_relax)
qed

declare dijkstraLoop.simps [simp del]

text \<open>
  \<open>dijkstraWithTimeWindow\<close> returns the reconstructed path and the total time, the
  distance of the end node in 5-minute steps, as milliseconds (\<open>None\<close> is \<open>NaN\<close>, from
  an end node without a distance).
\<close>

datatype jstime = Millis int | InfiniteTime

definition dijkstraWithTimeWindowIn ::
  "graph \<Rightarrow> node \<Rightarrow> node \<Rightarrow> int \<Rightarrow> (node \<times> int list) list \<Rightarrow> node list option \<times> jstime option" where
  "dijkstraWithTimeWindowIn g start endN windowStart occupiedSlots =
     (let st = dijkstraLoop g endN windowStart occupiedSlots
                 \<lparr>distances = AList.update start (Num 0) (map (\<lambda>i. (i, Infinity)) [1..9]),
                  previous = [], unvisited = [1..9]\<rparr>
      in (reconstructPath (previous st) endN,
          map_option (\<lambda>d. case d of Num n \<Rightarrow> Millis (int n * 5 * 60 * 1000)
                                     | Infinity \<Rightarrow> InfiniteTime)
            (map_of (distances st) endN)))"

definition dijkstraWithTimeWindow ::
  "node \<Rightarrow> node \<Rightarrow> int \<Rightarrow> (node \<times> int list) list \<Rightarrow> node list option \<times> jstime option" where
  "dijkstraWithTimeWindow = dijkstraWithTimeWindowIn nodeConnections"

subsection \<open>Scored assignment\<close>

record serverAgv =
  vehicleId :: string
  vehiclePosition :: node
  vehicleBattery :: int
  vehicleStatus :: agvStatus
  vehicleAlgorithm :: string
  vehiclePriority :: string

datatype taskStatus = Pending | Assigned | TaskExecuting | Completed

record serverTask =
  taskId :: int
  pickupLocation :: node
  deliveryLocation :: node
  taskPriority :: string
  taskStatus :: taskStatus
  assignedAGV :: "string option"
  plannedPath :: "node list option"
  taskAlgorithm :: "string option"
  delayedUntil :: "int option"

text \<open>\<open>priorityBonus[agv.priority] || 10\<close> and \<open>algorithmBonus[agv.algorithm] || 10\<close>\<close>

definition priorityBonus :: "string \<Rightarrow> int" where
  "priorityBonus p =
     (if p = ''High'' then 20 else if p = ''Medium'' then 10 else if p = ''Low'' then 5 else 10)"

definition algorithmBonus :: "string \<Rightarrow> int" where
  "algorithmBonus a =
     (if a = ''A*'' then 15 else if a = ''Dijkstra+TimeWindow'' then 10
      else if a = ''ACO'' then 12 else 10)"

definition calculateAGVScore :: "serverAgv \<Rightarrow> serverTask \<Rightarrow> jsError + int" where
  "calculateAGVScore agv task =
     (case heuristic (vehiclePosition agv) (pickupLocation task) of
        Inl e \<Rightarrow> Inl e
      | Inr distance \<Rightarrow>
          Inr ((10 - distance) * 10
               + (if vehicleBattery agv > 50 then 30 else if vehicleBattery agv > 25 then 15 else 0)
               + priorityBonus (vehiclePriority agv)
               + algorithmBonus (vehicleAlgorithm agv)))"

text \<open>\<open>availableAGVs.map(agv => ({agv, score: calculateAGVScore(agv, task)}))\<close>\<close>

fun scoreAll :: "serverAgv list \<Rightarrow> serverTask \<Rightarrow> jsError + (serverAgv \<times> int) list" where
  "scoreAll [] task = Inr []"
| "scoreAll (agv # rest) task =
     (case calculateAGVScore agv task of
        Inl e \<Rightarrow> Inl e
      | Inr score \<Rightarrow>
          (case scoreAll rest task of
             Inl e \<Rightarrow> Inl e
           | Inr scored \<Rightarrow> Inr ((agv, score) # scored)))"

text \<open>The \<open>switch (selectedAGV.algorithm)\<close> that plans the pickup leg.\<close>

definition planPickup :: "int \<Rightarrow> serverAgv \<Rightarrow> serverTask \<Rightarrow> (jsError + node list) option" where
  "planPickup now selectedAGV task =
     (if vehicleAlgorithm selectedAGV = ''A*''
      then aStarPathfinding (vehiclePosition selectedAGV) (pickupLocation task) []
      else if vehicleAlgorithm selectedAGV = ''Dijkstra+TimeWindow''
      then map_option Inr
             (fst (dijkstraWithTimeWindow (vehiclePosition selectedAGV)
                     (pickupLocation task) now []))
      else if vehicleAlgorithm selectedAGV = ''ACO''
      then aStarPathfinding (vehiclePosition selectedAGV) (pickupLocation task) []
      else aStarPathfinding (vehiclePosition selectedAGV) (pickupLocation task) [])"

text \<open>
  \<open>assignTaskToAGV\<close>, on the fleet in the order of \<open>Object.values(systemState.agvs)\<close>;
  \<open>now\<close> is \<open>Date.now()\<close>. The sort by descending score is stable. The result is the
  returned vehicle id (\<open>None\<close> for \<open>null\<close>) and the task as the call leaves it.
\<close>

definition assignTaskToAGV ::
  "int \<Rightarrow> serverAgv list \<Rightarrow> serverTask \<Rightarrow> (jsError + (string option \<times> serverTask)) option" where
  "assignTaskToAGV now vehicles task =
     (let availableAGVs = filter (\<lambda>agv. vehicleStatus agv = Idle) vehicles in
      if availableAGVs = [] then Some (Inr (None, task))
      else
        case scoreAll availableAGVs task of
          Inl e \<Rightarrow> Some (Inl e)
        | Inr agvScores \<Rightarrow>
            let selectedAGV = fst (hd (sort_key (\<lambda>(agv, score). - score) agvScores))
            in case planPickup now selectedAGV task of
                 None \<Rightarrow> None
               | Some (Inl e) \<Rightarrow> Some (Inl e)
               | Some (Inr pth) \<Rightarrow>
                   if length pth > 0
                   then Some (Inr (Some (vehicleId selectedAGV),
                                   task\<lparr>assignedAGV := Some (vehicleId selectedAGV),
                                        plannedPath := Some pth,
                                        taskAlgorithm := Some (vehicleAlgorithm selectedAGV),
                                        taskStatus := Assigned\<rparr>))
                   else Some (Inr (None, task)))"

text \<open>The fleet as the service configures it.\<close>

definition serverFleet :: "serverAgv list" where
  "serverFleet =
     [\<lparr>vehicleId = ''AGV1'', vehiclePosition = 1, vehicleBattery = 100, vehicleStatus = Idle,
       vehicleAlgorithm = ''A*'', vehiclePriority = ''High''\<rparr>,
      \<lparr>vehicleId = ''AGV2'', vehiclePosition = 5, vehicleBattery = 85, vehicleStatus = Idle,
       vehicleAlgorithm = ''Dijkstra+TimeWindow'', vehiclePriority = ''Medium''\<rparr>,
      \<lparr>vehicleId = ''AGV3'', vehiclePosition = 9, vehicleBattery = 92, vehicleStatus = Idle,
       vehicleAlgorithm = ''ACO'', vehiclePriority = ''Low''\<rparr>]"

subsection \<open>Conflicts\<close>











subsection \<open>Task requests\<close>



section \<open>Auxiliary definitions and sample states\<close>

text \<open>
  Definitions used to state and prove the properties below: the planning loop without
  its effects, invariants of the search loops and of a route in progress, reachability in
  a graph, the score as the specification words it, and concrete states of the two
  services.
\<close>

subsection \<open>Definitions for proofs\<close>

text \<open>
  The movements a tick admits depend on the occupied nodes, the nodes reserved so far and
  the queue entries only: \<open>admit\<close> is the planning loop without its effects on the
  fleet.
\<close>

definition mkMovement :: "agvId \<Rightarrow> movementData \<Rightarrow> movement" where
  "mkMovement i md =
     \<lparr>mAgvId = i, mFrom = currentPosition md, mTo = nextPosition md,
      mIsChargingTask = isChargingTask md, newIndex = currentIndex md + 1\<rparr>"

fun admit :: "node set \<Rightarrow> node set \<Rightarrow> (agvId \<times> movementData) list \<Rightarrow> movement list" where
  "admit occ res [] = []"
| "admit occ res ((i, md) # rest) =
     (if \<not> pendingStep md then admit occ res rest
      else if nextPosition md \<notin> occ \<and> nextPosition md \<notin> res
        then mkMovement i md # admit occ (insert (nextPosition md) res) rest
      else admit occ res rest)"


text \<open>
  The edges a search may follow: from a node to each of its listed neighbors that is not
  avoided. \<open>connected\<close> is reachability along such edges.
\<close>

definition edges :: "graph \<Rightarrow> node list \<Rightarrow> (node \<times> node) set" where
  "edges g avoidNodes = {(u, v). v \<in> set (neighborsOf g u) \<and> v \<notin> set avoidNodes}"

definition connected :: "graph \<Rightarrow> node list \<Rightarrow> node \<Rightarrow> node \<Rightarrow> bool" where
  "connected g avoidNodes a b = ((a, b) \<in> (edges g avoidNodes)\<^sup>*)"

definition searchInv :: "graph \<Rightarrow> node \<Rightarrow> node list \<Rightarrow> astar \<Rightarrow> bool" where
  "searchInv g endN av st =
     ((\<forall>(n, f) \<in> set (openSet st). \<not> connected g av n endN)
      \<and> (\<forall>k \<in> fst ` set (gScore st). map_of positions k \<noteq> None))"

definition dijkstraInv :: "graph \<Rightarrow> node \<Rightarrow> node \<Rightarrow> dijkstra \<Rightarrow> bool" where
  "dijkstraInv g start endN st =
     (map_of (previous st) endN = None
      \<and> (\<forall>n d. map_of (distances st) n = Some (Num d) \<longrightarrow> connected g [] start n))"

text \<open>
  The score as the specification words it: the priority bonus is read from the task.
\<close>

definition specScore :: "serverAgv \<Rightarrow> serverTask \<Rightarrow> int" where
  "specScore agv task =
     (10 - (case heuristic (vehiclePosition agv) (pickupLocation task) of
              Inr d \<Rightarrow> d | Inl e \<Rightarrow> 0)) * 10
     + (if vehicleBattery agv > 50 then 30 else if vehicleBattery agv > 25 then 15 else 0)
     + (if taskPriority task = ''High'' then 20 else if taskPriority task = ''Medium'' then 10
        else if taskPriority task = ''Low'' then 5 else 0)
     + algorithmBonus (vehicleAlgorithm agv)"

subsection \<open>Sample states\<close>

text \<open>The fleet as the service defines it, after \<open>POST /api/simulation/start\<close>.\<close>

definition started :: state where
  "started = simulationStart initialState"

text \<open>
  Three tasks created in a row, 1 to 4, 3 to 6 and 5 to 6: they go to AGV1, AGV3 and AGV2
  (by battery), so AGV3 enters the movement queue before AGV2.
\<close>

definition threeTasks :: state where
  "threeTasks =
     fst (createTaskInternal 5 6 10 ''high'' False
       (fst (createTaskInternal 3 6 10 ''high'' False
         (fst (createTaskInternal 1 4 10 ''high'' False started)))))"

text \<open>
  Two vehicles with little battery and a step to go: AGV1 at 12 on a normal route, AGV2
  at 10 on a charging route.
\<close>

definition lowBattery :: state where
  "lowBattery =
     \<lparr>agvs = [(''AGV1'', \<lparr>position = 1, battery = 12, status = Busy\<rparr>),
              (''AGV2'', \<lparr>position = 5, battery = 10, status = ChargingRoute\<rparr>)],
      tasks = [], isRunning = True, totalTasksCompleted = 0,
      occupiedNodes = {1, 5}, reservedNodes = [],
      movementQueue =
        [(''AGV1'', \<lparr>path = [1, 2], currentIndex = 0, isChargingTask = False\<rparr>),
         (''AGV2'', \<lparr>path = [5, 8, 9], currentIndex = 0, isChargingTask = True\<rparr>)],
      broadcasts = []\<rparr>"

text \<open>
  A run of the service from its start: a task from 5 to 6 (AGV1 is selected and placed
  on node 5, where AGV2 rests), two ticks (AGV1 moves to 6, which takes node 5 out of
  the occupied set, and completes), a task from 4 to 5 (AGV1 again), one tick.
\<close>

definition firstTaskDone :: state where
  "firstTaskDone =
     coordinateSimultaneousMovement (coordinateSimultaneousMovement
       (fst (createTaskInternal 5 6 10 ''high'' False started)))"

definition sharedNodeRun :: state where
  "sharedNodeRun =
     coordinateSimultaneousMovement (fst (createTaskInternal 4 5 10 ''high'' False firstTaskDone))"


text \<open>
  The running service with AGV1 idle on the charging node at battery 28 (a vehicle that
  finishes a normal task on node 9 stays idle there), and the other two vehicles busy.
\<close>

definition idleLow :: state where
  "idleLow =
     \<lparr>agvs = [(''AGV1'', \<lparr>position = 9, battery = 28, status = Idle\<rparr>),
              (''AGV2'', \<lparr>position = 5, battery = 85, status = Busy\<rparr>),
              (''AGV3'', \<lparr>position = 3, battery = 92, status = Busy\<rparr>)],
      tasks = [], isRunning = True, totalTasksCompleted = 1,
      occupiedNodes = {3, 5, 9}, reservedNodes = [], movementQueue = [], broadcasts = []\<rparr>"

text \<open>
  A pending task of low priority with its pickup at a given node, and an idle vehicle of
  the scheduling service with battery 20.
\<close>

definition pickupAt :: "node \<Rightarrow> serverTask" where
  "pickupAt n =
     \<lparr>taskId = 7, pickupLocation = n, deliveryLocation = 2, taskPriority = ''Low'',
      taskStatus = Pending, assignedAGV = None, plannedPath = None, taskAlgorithm = None,
      delayedUntil = None\<rparr>"

definition drainedVehicle :: serverAgv where
  "drainedVehicle =
     \<lparr>vehicleId = ''AGV2'', vehiclePosition = 5, vehicleBattery = 20, vehicleStatus = Idle,
      vehicleAlgorithm = ''A*'', vehiclePriority = ''Medium''\<rparr>"


section \<open>Properties of the tick\<close>

subsection \<open>Frame facts\<close>

lemma getAgv_setAgv: "getAgv (setAgv i a s) j = (if j = i then Some a else getAgv s j)"
  by (simp add: getAgv_def setAgv_def update_conv')

lemma setAgv_fields [simp]:
  "occupiedNodes (setAgv i a s) = occupiedNodes s"
  "reservedNodes (setAgv i a s) = reservedNodes s"
  "movementQueue (setAgv i a s) = movementQueue s"
  "broadcasts (setAgv i a s) = broadcasts s"
  "tasks (setAgv i a s) = tasks s"
  "totalTasksCompleted (setAgv i a s) = totalTasksCompleted s"
  "isRunning (setAgv i a s) = isRunning s"
  by (simp_all add: setAgv_def)

lemma broadcast_fields [simp]:
  "occupiedNodes (broadcast e s) = occupiedNodes s"
  "reservedNodes (broadcast e s) = reservedNodes s"
  "movementQueue (broadcast e s) = movementQueue s"
  "agvs (broadcast e s) = agvs s"
  "tasks (broadcast e s) = tasks s"
  "broadcasts (broadcast e s) = broadcasts s @ [e]"
  by (simp_all add: broadcast_def)

lemma getAgv_broadcast [simp]: "getAgv (broadcast e s) j = getAgv s j"
  by (simp add: getAgv_def)

lemma getAgv_upd [simp]:
  "getAgv (s\<lparr>occupiedNodes := oc\<rparr>) j = getAgv s j"
  "getAgv (s\<lparr>reservedNodes := r\<rparr>) j = getAgv s j"
  "getAgv (s\<lparr>movementQueue := q\<rparr>) j = getAgv s j"
  "getAgv (s\<lparr>broadcasts := b\<rparr>) j = getAgv s j"
  "getAgv (s\<lparr>totalTasksCompleted := n\<rparr>) j = getAgv s j"
  "getAgv (s\<lparr>tasks := ts\<rparr>) j = getAgv s j"
  by (simp_all add: getAgv_def)

lemma startCharging_fields [simp]:
  "occupiedNodes (startCharging i s) = occupiedNodes s"
  "reservedNodes (startCharging i s) = reservedNodes s"
  "movementQueue (startCharging i s) = movementQueue s"
  by (simp_all add: startCharging_def split: option.splits)

lemma getAgv_startCharging_other: "j \<noteq> i \<Longrightarrow> getAgv (startCharging i s) j = getAgv s j"
  by (simp add: startCharging_def getAgv_setAgv split: option.splits)

lemma completeAGVTask_fields [simp]:
  "occupiedNodes (completeAGVTask i n c s) = occupiedNodes s"
  "reservedNodes (completeAGVTask i n c s) = reservedNodes s"
  "movementQueue (completeAGVTask i n c s) = movementQueue s"
  by (simp_all add: completeAGVTask_def Let_def split: option.splits)

lemma getAgv_completeAGVTask_other:
  "j \<noteq> i \<Longrightarrow> getAgv (completeAGVTask i n c s) j = getAgv s j"
  by (simp add: completeAGVTask_def Let_def getAgv_setAgv getAgv_startCharging_other
           split: option.splits)

subsection \<open>The planning loop\<close>

lemma planMovements_moves:
  "snd (planMovements es s ms) =
     ms @ admit (occupiedNodes s) (fst ` set (reservedNodes s)) es"
proof (induction es arbitrary: s ms)
  case Nil
  show ?case by simp
next
  case (Cons e es)
  obtain i md where e: "e = (i, md)" by (cases e)
  show ?case
    unfolding e
    by (simp add: Cons.IH pendingStep_def mkMovement_def not_less)
qed

lemma movementsToExecute_admit:
  "movementsToExecute s = admit (occupiedNodes s) {} (movementQueue s)"
  by (simp add: movementsToExecute_def planTick_def planMovements_moves)

lemma admit_member:
  "m \<in> set (admit occ res es) \<Longrightarrow>
     \<exists>md. (mAgvId m, md) \<in> set es \<and> pendingStep md \<and> m = mkMovement (mAgvId m) md
          \<and> nextPosition md \<notin> occ \<and> nextPosition md \<notin> res"
proof (induction es arbitrary: res)
  case Nil
  then show ?case by simp
next
  case (Cons e es)
  obtain i md where e: "e = (i, md)" by (cases e)
  from Cons.prems show ?case
    unfolding e
    by (auto simp: mkMovement_def split: if_splits dest!: Cons.IH)
qed

lemma admit_ids: "mAgvId ` set (admit occ res es) \<subseteq> fst ` set es"
  by (auto dest!: admit_member intro: rev_image_eqI)

lemma admit_distinct_ids:
  "distinct (map fst es) \<Longrightarrow> distinct (map mAgvId (admit occ res es))"
proof (induction es arbitrary: res)
  case Nil
  show ?case by simp
next
  case (Cons e es)
  obtain i md where e: "e = (i, md)" by (cases e)
  have "i \<notin> mAgvId ` set (admit occ r es)" for r
    using Cons.prems admit_ids [of occ r es] unfolding e by auto
  with Cons show ?case
    unfolding e by (auto simp: mkMovement_def)
qed

lemma admit_targets_fresh:
  "mTo ` set (admit occ res es) \<inter> (occ \<union> res) = {}"
proof -
  have "mTo m \<notin> occ \<and> mTo m \<notin> res" if "m \<in> set (admit occ res es)" for m
  proof -
    from admit_member [OF that] obtain md where
      "m = mkMovement (mAgvId m) md" "nextPosition md \<notin> occ" "nextPosition md \<notin> res"
      by blast
    then show ?thesis by (metis mkMovement_def movement.select_convs(3))
  qed
  then show ?thesis by auto
qed

lemma admit_distinct_targets: "distinct (map mTo (admit occ res es))"
proof (induction es arbitrary: res)
  case Nil
  show ?case by simp
next
  case (Cons e es)
  obtain i md where e: "e = (i, md)" by (cases e)
  have "nextPosition md \<notin> mTo ` set (admit occ (insert (nextPosition md) res) es)"
    using admit_targets_fresh [of occ "insert (nextPosition md) res" es] by auto
  with Cons show ?case
    unfolding e by (auto simp: mkMovement_def)
qed

lemma admit_first_wins:
  assumes "distinct (map fst (xs @ (i, md) # ys))" and "pendingStep md"
  shows "i \<in> mAgvId ` set (admit occ res (xs @ (i, md) # ys)) \<longleftrightarrow>
           nextPosition md \<notin> occ \<and> nextPosition md \<notin> res \<and>
           (\<forall>(j, md') \<in> set xs. pendingStep md' \<longrightarrow> nextPosition md' \<noteq> nextPosition md)"
  using assms
proof (induction xs arbitrary: res)
  case Nil
  have "i \<notin> mAgvId ` set (admit occ r ys)" for r
    using Nil.prems admit_ids [of occ r ys] by auto
  with Nil show ?case by (auto simp: mkMovement_def)
next
  case (Cons e xs)
  obtain j md' where e: "e = (j, md')" by (cases e)
  have ne: "j \<noteq> i" using Cons.prems unfolding e by auto
  have d: "distinct (map fst (xs @ (i, md) # ys))" using Cons.prems by simp
  note IH = Cons.IH [OF d Cons.prems(2)]
  show ?case
    unfolding e using ne
    by (auto simp: IH mkMovement_def)
qed

subsection \<open>State after planning\<close>

lemma planMovements_occupied:
  "occupiedNodes (fst (planMovements es s ms)) = occupiedNodes s"
  by (induction es s ms rule: planMovements.induct) simp_all

lemma planMovements_getAgv:
  "i \<notin> fst ` set (filter (\<lambda>(j, md). \<not> pendingStep md) es) \<Longrightarrow>
     getAgv (fst (planMovements es s ms)) i = getAgv s i"
proof (induction es s ms rule: planMovements.induct)
  case (1 s ms)
  show ?case by simp
next
  case (2 agvId md rest s ms)
  then show ?case
    by (auto simp: pendingStep_def not_less getAgv_completeAGVTask_other split: if_splits)
qed

lemma planMovements_queue:
  "movementQueue (fst (planMovements es s ms)) =
     filter (\<lambda>(i, md). i \<notin> fst ` set (filter (\<lambda>(j, md). \<not> pendingStep md) es))
            (movementQueue s)"
proof (induction es s ms rule: planMovements.induct)
  case (1 s ms)
  show ?case by simp
next
  case (2 agvId md rest s ms)
  show ?case
  proof (cases "pendingStep md")
    case True
    with 2 show ?thesis by (simp add: pendingStep_def)
  next
    case False
    then have c: "length (path md) \<le> currentIndex md + 1"
      by (simp add: pendingStep_def)
    have "movementQueue (fst (planMovements ((agvId, md) # rest) s ms)) =
            filter (\<lambda>(i, md). i \<notin> fst ` set (filter (\<lambda>(j, md). \<not> pendingStep md) rest))
              (AList.delete agvId (movementQueue s))"
      using c 2(1) by simp
    also have "\<dots> = filter (\<lambda>(i, md'). i \<notin> fst ` set (filter (\<lambda>(j, md). \<not> pendingStep md)
                                                         ((agvId, md) # rest)))
                        (movementQueue s)"
      using False by (auto simp: AList.delete_eq intro!: filter_cong)
    finally show ?thesis .
  qed
qed

lemma planMovements_broadcasts_prefix:
  "\<exists>new. broadcasts (fst (planMovements es s ms)) = broadcasts s @ new"
proof (induction es s ms rule: planMovements.induct)
  case (1 s ms)
  show ?case by simp
next
  case (2 agvId md rest s ms)
  have b: "\<exists>new. broadcasts (completeAGVTask i n c s) = broadcasts s @ new" for i n c
    by (auto simp: completeAGVTask_def Let_def startCharging_def split: option.splits)
  show ?case
  proof (cases "length (path md) \<le> currentIndex md + 1")
    case True
    from 2(1) [OF True] obtain new where
      "broadcasts (fst (planMovements ((agvId, md) # rest) s ms)) =
         broadcasts (completeAGVTask agvId (last (path md)) (isChargingTask md) s) @ new"
      using True by auto
    with b show ?thesis by (metis append.assoc)
  next
    case False
    with 2(2,3) show ?thesis by auto
  qed
qed

subsection \<open>Execution of the admitted movements\<close>

lemma getAgv_executeMovement_other:
  "i \<noteq> mAgvId m \<Longrightarrow> getAgv (executeMovement m s) i = getAgv s i"
  by (simp add: executeMovement_def Let_def getAgv_setAgv split: option.splits)

lemma getAgv_executeMovement_same:
  "getAgv s (mAgvId m) = Some a \<Longrightarrow>
     getAgv (executeMovement m s) (mAgvId m) =
       Some (a\<lparr>position := mTo m, battery := drainBattery (mIsChargingTask m) (battery a)\<rparr>)"
  by (simp add: executeMovement_def Let_def getAgv_setAgv split: option.splits)

lemma queue_executeMovement_other:
  "i \<noteq> mAgvId m \<Longrightarrow>
     map_of (movementQueue (executeMovement m s)) i = map_of (movementQueue s) i"
  by (simp add: executeMovement_def Let_def update_conv' split: option.splits)

lemma queue_executeMovement_same:
  "getAgv s (mAgvId m) = Some a \<Longrightarrow> map_of (movementQueue s) (mAgvId m) = Some md \<Longrightarrow>
     map_of (movementQueue (executeMovement m s)) (mAgvId m) =
       Some (md\<lparr>currentIndex := newIndex m\<rparr>)"
  by (simp add: executeMovement_def Let_def update_conv' split: option.splits)


lemma occupied_executeMovement:
  "occupiedNodes (executeMovement m s) =
     (if getAgv s (mAgvId m) = None then occupiedNodes s
      else insert (mTo m) (occupiedNodes s - {mFrom m}))"
  by (simp add: executeMovement_def Let_def split: option.splits)

lemma fold_execute_getAgv_other:
  "i \<notin> mAgvId ` set ms \<Longrightarrow> getAgv (fold executeMovement ms s) i = getAgv s i"
  by (induction ms arbitrary: s) (simp_all add: getAgv_executeMovement_other)

lemma fold_execute_queue_other:
  "i \<notin> mAgvId ` set ms \<Longrightarrow>
     map_of (movementQueue (fold executeMovement ms s)) i = map_of (movementQueue s) i"
  by (induction ms arbitrary: s) (simp_all add: queue_executeMovement_other)


lemma fold_execute_occupied_keep:
  "n \<in> occupiedNodes s \<Longrightarrow> n \<notin> mFrom ` set ms \<Longrightarrow> n \<in> occupiedNodes (fold executeMovement ms s)"
  by (induction ms arbitrary: s) (simp_all add: occupied_executeMovement)

lemma fold_execute_occupied_free:
  "n \<notin> occupiedNodes s \<Longrightarrow> n \<notin> mTo ` set ms \<Longrightarrow> n \<notin> occupiedNodes (fold executeMovement ms s)"
  by (induction ms arbitrary: s) (simp_all add: occupied_executeMovement)

lemma fold_execute_member:
  assumes "distinct (map mAgvId ms)" and "m \<in> set ms" and "getAgv s (mAgvId m) = Some a"
  shows "getAgv (fold executeMovement ms s) (mAgvId m) =
           Some (a\<lparr>position := mTo m, battery := drainBattery (mIsChargingTask m) (battery a)\<rparr>)"
    and "map_of (movementQueue s) (mAgvId m) = Some md \<Longrightarrow>
           map_of (movementQueue (fold executeMovement ms s)) (mAgvId m) =
             Some (md\<lparr>currentIndex := newIndex m\<rparr>)"
    and "mTo m \<notin> mFrom ` set ms \<Longrightarrow> mTo m \<in> occupiedNodes (fold executeMovement ms s)"
    and "mFrom m \<notin> mTo ` set ms \<Longrightarrow> mFrom m \<notin> occupiedNodes (fold executeMovement ms s)"
proof -
  from assms(2) obtain ms1 ms2 where ms: "ms = ms1 @ m # ms2"
    by (auto simp: in_set_conv_decomp)
  have n1: "mAgvId m \<notin> mAgvId ` set ms1" and n2: "mAgvId m \<notin> mAgvId ` set ms2"
    using assms(1) unfolding ms by auto
  define s1 where "s1 = fold executeMovement ms1 s"
  have a1: "getAgv s1 (mAgvId m) = Some a"
    using n1 assms(3) by (simp add: s1_def fold_execute_getAgv_other)
  have f: "fold executeMovement ms s = fold executeMovement ms2 (executeMovement m s1)"
    by (simp add: ms s1_def)
  show "getAgv (fold executeMovement ms s) (mAgvId m) =
           Some (a\<lparr>position := mTo m, battery := drainBattery (mIsChargingTask m) (battery a)\<rparr>)"
    unfolding f using n2 a1
    by (simp add: fold_execute_getAgv_other getAgv_executeMovement_same)
  show "map_of (movementQueue (fold executeMovement ms s)) (mAgvId m) =
             Some (md\<lparr>currentIndex := newIndex m\<rparr>)"
    if "map_of (movementQueue s) (mAgvId m) = Some md"
  proof -
    have "map_of (movementQueue s1) (mAgvId m) = Some md"
      using n1 that by (simp add: s1_def fold_execute_queue_other)
    then show ?thesis
      unfolding f using n2 a1
      by (simp add: fold_execute_queue_other queue_executeMovement_same)
  qed
  show "mTo m \<in> occupiedNodes (fold executeMovement ms s)" if "mTo m \<notin> mFrom ` set ms"
  proof -
    have "mTo m \<in> occupiedNodes (executeMovement m s1)"
      using a1 by (simp add: occupied_executeMovement)
    moreover have "mTo m \<notin> mFrom ` set ms2" using that unfolding ms by auto
    ultimately show ?thesis unfolding f by (rule fold_execute_occupied_keep)
  qed
  show "mFrom m \<notin> occupiedNodes (fold executeMovement ms s)" if "mFrom m \<notin> mTo ` set ms"
  proof -
    have "mFrom m \<noteq> mTo m" using that unfolding ms by auto
    then have "mFrom m \<notin> occupiedNodes (executeMovement m s1)"
      using a1 by (simp add: occupied_executeMovement)
    moreover have "mFrom m \<notin> mTo ` set ms2" using that unfolding ms by auto
    ultimately show ?thesis unfolding f by (rule fold_execute_occupied_free)
  qed
qed

lemma map_of_filter_distinct:
  "distinct (map fst q) \<Longrightarrow> (k, v) \<in> set q \<Longrightarrow> P (k, v) \<Longrightarrow> map_of (filter P q) k = Some v"
  by (rule map_of_is_SomeI) (simp_all add: distinct_map_filter)

lemma not_completed_id:
  assumes "distinct (map fst q)" and "(i, md) \<in> set q" and "pendingStep md"
  shows "i \<notin> fst ` set (filter (\<lambda>(j, md). \<not> pendingStep md) q)"
proof
  assume "i \<in> fst ` set (filter (\<lambda>(j, md). \<not> pendingStep md) q)"
  then obtain md' where "(i, md') \<in> set q" "\<not> pendingStep md'" by auto
  with assms(1,2) have "md' = md" by (meson eq_key_imp_eq_value)
  with \<open>\<not> pendingStep md'\<close> assms(3) show False by simp
qed

lemma planTick_keeps_pending:
  assumes "distinct (map fst (movementQueue s))" and "(i, md) \<in> set (movementQueue s)"
    and "pendingStep md"
  shows "getAgv (fst (planTick s)) i = getAgv s i"
    and "map_of (movementQueue (fst (planTick s))) i = Some md"
    and "occupiedNodes (fst (planTick s)) = occupiedNodes s"
proof -
  note nc = not_completed_id [OF assms]
  show "getAgv (fst (planTick s)) i = getAgv s i"
    using nc by (simp add: planTick_def planMovements_getAgv)
  show "map_of (movementQueue (fst (planTick s))) i = Some md"
    unfolding planTick_def planMovements_queue
    using assms(1,2) nc by (intro map_of_filter_distinct) simp_all
  show "occupiedNodes (fst (planTick s)) = occupiedNodes s"
    by (simp add: planTick_def planMovements_occupied)
qed

lemma tick_fields:
  "getAgv (coordinateSimultaneousMovement s) i =
     getAgv (fold executeMovement (movementsToExecute s) (fst (planTick s))) i"
  "movementQueue (coordinateSimultaneousMovement s) =
     movementQueue (fold executeMovement (movementsToExecute s) (fst (planTick s)))"
  "occupiedNodes (coordinateSimultaneousMovement s) =
     occupiedNodes (fold executeMovement (movementsToExecute s) (fst (planTick s)))"
  by (simp_all add: coordinateSimultaneousMovement_def Let_def)

lemma admitted_entry:
  assumes "distinct (map fst (movementQueue s))" and "m \<in> set (movementsToExecute s)"
  obtains md where "(mAgvId m, md) \<in> set (movementQueue s)"
    and "map_of (movementQueue s) (mAgvId m) = Some md" and "pendingStep md"
    and "m = mkMovement (mAgvId m) md" and "nextPosition md \<notin> occupiedNodes s"
proof -
  from assms(2) obtain md where md: "(mAgvId m, md) \<in> set (movementQueue s)" "pendingStep md"
    "m = mkMovement (mAgvId m) md" "nextPosition md \<notin> occupiedNodes s"
    unfolding movementsToExecute_admit by (blast dest: admit_member)
  from assms(1) md(1) have "map_of (movementQueue s) (mAgvId m) = Some md"
    by (rule map_of_is_SomeI)
  with md show thesis by (blast intro: that)
qed

lemma tick_moved:
  assumes d: "distinct (map fst (movementQueue s))" and m: "m \<in> set (movementsToExecute s)"
    and a: "getAgv s (mAgvId m) = Some a"
    and md: "map_of (movementQueue s) (mAgvId m) = Some md"
  shows "getAgv (coordinateSimultaneousMovement s) (mAgvId m) =
           Some (a\<lparr>position := mTo m, battery := drainBattery (mIsChargingTask m) (battery a)\<rparr>)"
    and "map_of (movementQueue (coordinateSimultaneousMovement s)) (mAgvId m) =
           Some (md\<lparr>currentIndex := newIndex m\<rparr>)"
    and "mTo m \<notin> mFrom ` set (movementsToExecute s) \<Longrightarrow>
           mTo m \<in> occupiedNodes (coordinateSimultaneousMovement s)"
    and "mFrom m \<notin> mTo ` set (movementsToExecute s) \<Longrightarrow>
           mFrom m \<notin> occupiedNodes (coordinateSimultaneousMovement s)"
proof -
  from admitted_entry [OF d m] obtain md' where e: "(mAgvId m, md') \<in> set (movementQueue s)"
    "map_of (movementQueue s) (mAgvId m) = Some md'" "pendingStep md'"
    by blast
  with md have e': "(mAgvId m, md) \<in> set (movementQueue s)" "pendingStep md" by auto
  note keep = planTick_keeps_pending [OF d e']
  have dm: "distinct (map mAgvId (movementsToExecute s))"
    unfolding movementsToExecute_admit by (rule admit_distinct_ids [OF d])
  have a1: "getAgv (fst (planTick s)) (mAgvId m) = Some a"
    using keep(1) a by simp
  note fm = fold_execute_member [OF dm m a1]
  show "getAgv (coordinateSimultaneousMovement s) (mAgvId m) =
           Some (a\<lparr>position := mTo m, battery := drainBattery (mIsChargingTask m) (battery a)\<rparr>)"
    unfolding tick_fields by (rule fm(1))
  show "map_of (movementQueue (coordinateSimultaneousMovement s)) (mAgvId m) =
           Some (md\<lparr>currentIndex := newIndex m\<rparr>)"
    unfolding tick_fields by (rule fm(2) [OF keep(2)])
  show "mTo m \<in> occupiedNodes (coordinateSimultaneousMovement s)"
    if "mTo m \<notin> mFrom ` set (movementsToExecute s)"
    unfolding tick_fields by (rule fm(3) [OF that])
  show "mFrom m \<notin> occupiedNodes (coordinateSimultaneousMovement s)"
    if "mFrom m \<notin> mTo ` set (movementsToExecute s)"
    unfolding tick_fields by (rule fm(4) [OF that])
qed

lemma tick_not_moved:
  assumes d: "distinct (map fst (movementQueue s))" and e: "(i, md) \<in> set (movementQueue s)"
    and p: "pendingStep md" and n: "i \<notin> mAgvId ` set (movementsToExecute s)"
  shows "getAgv (coordinateSimultaneousMovement s) i = getAgv s i"
    and "map_of (movementQueue (coordinateSimultaneousMovement s)) i = Some md"
proof -
  note keep = planTick_keeps_pending [OF d e p]
  show "getAgv (coordinateSimultaneousMovement s) i = getAgv s i"
    unfolding tick_fields using n keep(1) by (simp add: fold_execute_getAgv_other)
  show "map_of (movementQueue (coordinateSimultaneousMovement s)) i = Some md"
    unfolding tick_fields using n keep(2) by (simp add: fold_execute_queue_other)
qed

lemma fold_execute_broadcasts_prefix:
  "\<exists>new. broadcasts (fold executeMovement ms s) = broadcasts s @ new"
proof (induction ms arbitrary: s)
  case Nil
  show ?case by simp
next
  case (Cons m ms)
  have "\<exists>new. broadcasts (executeMovement m s) = broadcasts s @ new"
    by (auto simp: executeMovement_def Let_def split: option.splits)
  with Cons [of "executeMovement m s"] show ?case
    by (metis append.assoc fold_simps(2))
qed

lemma tick_waiting_event:
  assumes d: "distinct (map fst (movementQueue s))" and e: "(i, md) \<in> set (movementQueue s)"
    and p: "pendingStep md" and n: "i \<notin> mAgvId ` set (movementsToExecute s)"
  shows "\<exists>new. broadcasts (coordinateSimultaneousMovement s) = broadcasts s @ new
            \<and> AgvWaiting i (map_option position (getAgv s i)) \<in> set new"
proof -
  define s2 where "s2 = fold executeMovement (movementsToExecute s) (fst (planTick s))"
  define waiting where
    "waiting = filter (\<lambda>(agvId, md). agvId \<notin> mAgvId ` set (movementsToExecute s)) (movementQueue s2)"
  define ev where
    "ev = map (\<lambda>(agvId, md). AgvWaiting agvId (map_option position (getAgv s2 agvId))) waiting"
  have b: "broadcasts (coordinateSimultaneousMovement s) = broadcasts s2 @ ev"
    by (simp add: coordinateSimultaneousMovement_def Let_def s2_def ev_def waiting_def)
  obtain n1 where n1: "broadcasts (fst (planTick s)) = broadcasts s @ n1"
    using planMovements_broadcasts_prefix [of "movementQueue s" "s\<lparr>reservedNodes := []\<rparr>" "[]"]
    by (auto simp: planTick_def)
  obtain n2 where n2: "broadcasts s2 = broadcasts (fst (planTick s)) @ n2"
    unfolding s2_def using fold_execute_broadcasts_prefix by blast
  note nm = tick_not_moved [OF d e p n]
  have q: "map_of (movementQueue s2) i = Some md" and g: "getAgv s2 i = getAgv s i"
    using nm by (simp_all add: tick_fields s2_def)
  from q have "(i, md) \<in> set (movementQueue s2)" by (rule map_of_SomeD)
  with n have "(i, md) \<in> set waiting" by (simp add: waiting_def)
  then have "AgvWaiting i (map_option position (getAgv s2 i)) \<in> set ev"
    unfolding ev_def by (auto intro!: rev_image_eqI)
  with g have "AgvWaiting i (map_option position (getAgv s i)) \<in> set (n1 @ n2 @ ev)"
    by simp
  moreover have "broadcasts (coordinateSimultaneousMovement s) = broadcasts s @ (n1 @ n2 @ ev)"
    by (simp add: b n1 n2)
  ultimately show ?thesis by blast
qed

section \<open>Concrete runs\<close>

lemmas creation_defs =
  createTaskInternal_def availableAGVs_def selectBest_def needsCharging_def
  LOW_BATTERY_THRESHOLD_def setAgv_def simulateAGVMovement_def getAgv_def broadcast_def
  findPath_def findPathIn_def nodeGraph_def neighborsOf_def Let_def

lemmas tick_defs =
  coordinateSimultaneousMovement_def movementsToExecute_def planTick_def
  executeMovement_def drainBattery_def completeAGVTask_def startCharging_def
  CHARGING_NODE_def nextPosition_def currentPosition_def pendingStep_def
  setAgv_def getAgv_def broadcast_def Let_def

lemma started_eq:
  "started =
     \<lparr>agvs = [(''AGV1'', \<lparr>position = 1, battery = 100, status = Idle\<rparr>),
              (''AGV2'', \<lparr>position = 5, battery = 85, status = Idle\<rparr>),
              (''AGV3'', \<lparr>position = 9, battery = 92, status = Idle\<rparr>)],
      tasks = [], isRunning = True, totalTasksCompleted = 0,
      occupiedNodes = {1, 5, 9}, reservedNodes = [], movementQueue = [], broadcasts = []\<rparr>"
  by (simp add: started_def simulationStart_def initializeGlobalMovement_def initialState_def)

lemma threeTasks_queue:
  "movementQueue threeTasks =
     [(''AGV1'', \<lparr>path = [1, 4], currentIndex = 0, isChargingTask = False\<rparr>),
      (''AGV3'', \<lparr>path = [3, 6], currentIndex = 0, isChargingTask = False\<rparr>),
      (''AGV2'', \<lparr>path = [5, 6], currentIndex = 0, isChargingTask = False\<rparr>)]"
  by (simp add: threeTasks_def started_eq creation_defs)

lemma threeTasks_occupied: "occupiedNodes threeTasks = {1, 3, 5, 9}"
  by (simp add: threeTasks_def started_eq creation_defs insert_commute)

lemma threeTasks_agvs:
  "agvs threeTasks =
     [(''AGV1'', \<lparr>position = 1, battery = 100, status = Busy\<rparr>),
      (''AGV2'', \<lparr>position = 5, battery = 85, status = Busy\<rparr>),
      (''AGV3'', \<lparr>position = 3, battery = 92, status = Busy\<rparr>)]"
  by (simp add: threeTasks_def started_eq creation_defs)

lemma threeTasks_moves:
  "movementsToExecute threeTasks =
     [\<lparr>mAgvId = ''AGV1'', mFrom = 1, mTo = 4, mIsChargingTask = False, newIndex = 1\<rparr>,
      \<lparr>mAgvId = ''AGV3'', mFrom = 3, mTo = 6, mIsChargingTask = False, newIndex = 1\<rparr>]"
  by (simp add: tick_defs threeTasks_queue threeTasks_occupied)

section \<open>Claims about the tick\<close>

text \<open>
  C6, as the code has it: in a tick every admitted movement is applied. The moving
  vehicle's position becomes the next node of its path, its path index advances by one,
  and its battery drops by 3 on a normal route and by 1 on a charging route, but not
  below 10: \<open>battery := max(10, battery - 3)\<close> (resp. \<open>- 1\<close>). The node it moves to is
  occupied after the tick unless another admitted movement left from it, and the node it
  left is free unless another admitted movement went to it.
\<close>

theorem admitted_moves_applied:
  assumes "distinct (map fst (movementQueue s))"
    and "m \<in> set (movementsToExecute s)"
    and "getAgv s (mAgvId m) = Some a"
    and "map_of (movementQueue s) (mAgvId m) = Some md"
  shows "pendingStep md \<and> mFrom m = currentPosition md \<and> mTo m = nextPosition md
    \<and> mIsChargingTask m = isChargingTask md
    \<and> getAgv (coordinateSimultaneousMovement s) (mAgvId m) =
        Some (a\<lparr>position := nextPosition md,
                battery := max 10 (battery a - (if isChargingTask md then 1 else 3))\<rparr>)
    \<and> map_of (movementQueue (coordinateSimultaneousMovement s)) (mAgvId m) =
        Some (md\<lparr>currentIndex := currentIndex md + 1\<rparr>)
    \<and> (mTo m \<notin> mFrom ` set (movementsToExecute s) \<longrightarrow>
          mTo m \<in> occupiedNodes (coordinateSimultaneousMovement s))
    \<and> (mFrom m \<notin> mTo ` set (movementsToExecute s) \<longrightarrow>
          mFrom m \<notin> occupiedNodes (coordinateSimultaneousMovement s))"
proof -
  from admitted_entry [OF assms(1,2)] obtain md' where
    "map_of (movementQueue s) (mAgvId m) = Some md'" "pendingStep md'"
    "m = mkMovement (mAgvId m) md'"
    by blast
  with assms(4) have p: "pendingStep md" and mk: "m = mkMovement (mAgvId m) md"
    by simp_all
  have f: "mFrom m = currentPosition md" "mTo m = nextPosition md"
    "mIsChargingTask m = isChargingTask md" "newIndex m = currentIndex md + 1"
    by (subst mk, simp add: mkMovement_def)+
  note tm = tick_moved [OF assms]
  have "getAgv (coordinateSimultaneousMovement s) (mAgvId m) =
        Some (a\<lparr>position := nextPosition md,
                battery := max 10 (battery a - (if isChargingTask md then 1 else 3))\<rparr>)"
    using tm(1) by (simp add: f drainBattery_def)
  moreover have "map_of (movementQueue (coordinateSimultaneousMovement s)) (mAgvId m) =
        Some (md\<lparr>currentIndex := currentIndex md + 1\<rparr>)"
    using tm(2) by (simp add: f)
  ultimately show ?thesis
    using p f tm(3,4) by blast
qed

theorem admitted_moves_applied_witness:
  "getAgv (coordinateSimultaneousMovement threeTasks) ''AGV3'' =
     Some \<lparr>position = 6, battery = 89, status = Busy\<rparr>
   \<and> map_of (movementQueue (coordinateSimultaneousMovement threeTasks)) ''AGV3'' =
     Some \<lparr>path = [3, 6], currentIndex = 1, isChargingTask = False\<rparr>
   \<and> 6 \<in> occupiedNodes (coordinateSimultaneousMovement threeTasks)
   \<and> 3 \<notin> occupiedNodes (coordinateSimultaneousMovement threeTasks)"
proof -
  let ?m = "\<lparr>mAgvId = ''AGV3'', mFrom = 3, mTo = 6, mIsChargingTask = False, newIndex = 1\<rparr>"
  have h1: "distinct (map fst (movementQueue threeTasks))"
    by (simp add: threeTasks_queue)
  have h2: "?m \<in> set (movementsToExecute threeTasks)"
    by (simp add: threeTasks_moves)
  have h3: "getAgv threeTasks (mAgvId ?m) = Some \<lparr>position = 3, battery = 92, status = Busy\<rparr>"
    by (simp add: getAgv_def threeTasks_agvs)
  have h4: "map_of (movementQueue threeTasks) (mAgvId ?m) =
              Some \<lparr>path = [3, 6], currentIndex = 0, isChargingTask = False\<rparr>"
    by (simp add: threeTasks_queue)
  show ?thesis
    using admitted_moves_applied [OF h1 h2 h3 h4]
    by (simp add: threeTasks_moves nextPosition_def)
qed

text \<open>
  C6 as the specification states it, "exactly 3 points" and "exactly 1 point", fails where
  the battery is near 10: a normal step from battery 12 leaves 10, and a charging-route
  step from battery 10 leaves 10.
\<close>

theorem drain_exactly_three_counterexample:
  "movementsToExecute lowBattery =
     [\<lparr>mAgvId = ''AGV1'', mFrom = 1, mTo = 2, mIsChargingTask = False, newIndex = 1\<rparr>,
      \<lparr>mAgvId = ''AGV2'', mFrom = 5, mTo = 8, mIsChargingTask = True, newIndex = 1\<rparr>]
   \<and> getAgv lowBattery ''AGV1'' = Some \<lparr>position = 1, battery = 12, status = Busy\<rparr>
   \<and> getAgv (coordinateSimultaneousMovement lowBattery) ''AGV1'' =
       Some \<lparr>position = 2, battery = 10, status = Busy\<rparr>
   \<and> getAgv lowBattery ''AGV2'' = Some \<lparr>position = 5, battery = 10, status = ChargingRoute\<rparr>
   \<and> getAgv (coordinateSimultaneousMovement lowBattery) ''AGV2'' =
       Some \<lparr>position = 8, battery = 10, status = ChargingRoute\<rparr>"
  by (simp add: lowBattery_def tick_defs)

text \<open>
  C10: after an executed movement step the vehicle's battery is
  \<open>max(10, battery - 3)\<close> on a normal route and \<open>max(10, battery - 1)\<close> on a charging
  route, so never below 10, and the drain is the nominal 3 (resp. 1) exactly when the
  battery before the step was at least 13 (resp. 11).
\<close>

theorem battery_floor_after_step:
  assumes "distinct (map fst (movementQueue s))"
    and "m \<in> set (movementsToExecute s)"
    and "getAgv s (mAgvId m) = Some a"
  shows "map_option battery (getAgv (coordinateSimultaneousMovement s) (mAgvId m)) =
           Some (drainBattery (mIsChargingTask m) (battery a))
    \<and> 10 \<le> drainBattery (mIsChargingTask m) (battery a)
    \<and> drainBattery False (battery a) = max 10 (battery a - 3)
    \<and> drainBattery True (battery a) = max 10 (battery a - 1)
    \<and> (battery a - drainBattery False (battery a) = 3 \<longleftrightarrow> 13 \<le> battery a)
    \<and> (battery a - drainBattery True (battery a) = 1 \<longleftrightarrow> 11 \<le> battery a)"
proof -
  from admitted_entry [OF assms(1,2)] obtain md where
    md: "map_of (movementQueue s) (mAgvId m) = Some md"
    by blast
  have "map_option battery (getAgv (coordinateSimultaneousMovement s) (mAgvId m)) =
           Some (drainBattery (mIsChargingTask m) (battery a))"
    by (simp add: tick_moved(1) [OF assms md])
  moreover have "10 \<le> drainBattery c b" for c b
    by (simp add: drainBattery_def)
  moreover have "(battery a - drainBattery False (battery a) = 3 \<longleftrightarrow> 13 \<le> battery a)"
    "(battery a - drainBattery True (battery a) = 1 \<longleftrightarrow> 11 \<le> battery a)"
    by (auto simp: drainBattery_def max_def)
  ultimately show ?thesis
    by (simp add: drainBattery_def)
qed

theorem battery_floor_after_step_witness:
  "map_option battery (getAgv (coordinateSimultaneousMovement threeTasks) ''AGV1'') = Some 97
   \<and> (10::int) \<le> 97"
proof -
  let ?m = "\<lparr>mAgvId = ''AGV1'', mFrom = 1, mTo = 4, mIsChargingTask = False, newIndex = 1\<rparr>"
  have h1: "distinct (map fst (movementQueue threeTasks))"
    by (simp add: threeTasks_queue)
  have h2: "?m \<in> set (movementsToExecute threeTasks)"
    by (simp add: threeTasks_moves)
  have h3: "getAgv threeTasks (mAgvId ?m) = Some \<lparr>position = 1, battery = 100, status = Busy\<rparr>"
    by (simp add: getAgv_def threeTasks_agvs)
  show ?thesis
    using battery_floor_after_step [OF h1 h2 h3]
    by (simp add: drainBattery_def)
qed

lemma tick_targets_distinct_and_free:
  "distinct (map mTo (movementsToExecute s))
   \<and> mTo ` set (movementsToExecute s) \<inter> occupiedNodes s = {}"
  using admit_targets_fresh [of "occupiedNodes s" "{}" "movementQueue s"]
  by (simp add: movementsToExecute_admit admit_distinct_targets)

text \<open>
  C2, as the code has it: a pending step is admitted exactly when its next node is not
  occupied and no entry earlier in the movement queue has a pending step to the same
  node (that entry would have reserved it). Contention is therefore won by the vehicle
  that entered the queue first, whatever its id. A vehicle whose step is not admitted
  keeps its fleet record and its queue entry unchanged, and the tick broadcasts an
  \<open>agvWaiting\<close> message for it; nothing else records the wait.
\<close>

theorem admission_in_queue_order:
  assumes "distinct (map fst (movementQueue s))"
    and "movementQueue s = xs @ (i, md) # ys"
    and "pendingStep md"
  shows "(i \<in> mAgvId ` set (movementsToExecute s) \<longleftrightarrow>
            nextPosition md \<notin> occupiedNodes s \<and>
            (\<forall>(j, md') \<in> set xs. pendingStep md' \<longrightarrow> nextPosition md' \<noteq> nextPosition md))
    \<and> (i \<notin> mAgvId ` set (movementsToExecute s) \<longrightarrow>
          getAgv (coordinateSimultaneousMovement s) i = getAgv s i
          \<and> map_of (movementQueue (coordinateSimultaneousMovement s)) i = Some md
          \<and> (\<exists>new. broadcasts (coordinateSimultaneousMovement s) = broadcasts s @ new
                \<and> AgvWaiting i (map_option position (getAgv s i)) \<in> set new))"
proof -
  have d: "distinct (map fst (xs @ (i, md) # ys))"
    using assms(1,2) by simp
  have e: "(i, md) \<in> set (movementQueue s)"
    by (simp add: assms(2))
  have "i \<in> mAgvId ` set (movementsToExecute s) \<longleftrightarrow>
            nextPosition md \<notin> occupiedNodes s \<and>
            (\<forall>(j, md') \<in> set xs. pendingStep md' \<longrightarrow> nextPosition md' \<noteq> nextPosition md)"
    unfolding movementsToExecute_admit assms(2)
    using admit_first_wins [OF d assms(3), of "occupiedNodes s" "{}"] by simp
  moreover have "getAgv (coordinateSimultaneousMovement s) i = getAgv s i
          \<and> map_of (movementQueue (coordinateSimultaneousMovement s)) i = Some md
          \<and> (\<exists>new. broadcasts (coordinateSimultaneousMovement s) = broadcasts s @ new
                \<and> AgvWaiting i (map_option position (getAgv s i)) \<in> set new)"
    if n: "i \<notin> mAgvId ` set (movementsToExecute s)"
    using tick_not_moved [OF assms(1) e assms(3) n]
      tick_waiting_event [OF assms(1) e assms(3) n]
    by simp
  ultimately show ?thesis by blast
qed

theorem admission_in_queue_order_witness:
  "''AGV2'' \<notin> mAgvId ` set (movementsToExecute threeTasks)
   \<and> getAgv (coordinateSimultaneousMovement threeTasks) ''AGV2'' =
       Some \<lparr>position = 5, battery = 85, status = Busy\<rparr>
   \<and> map_of (movementQueue (coordinateSimultaneousMovement threeTasks)) ''AGV2'' =
       Some \<lparr>path = [5, 6], currentIndex = 0, isChargingTask = False\<rparr>"
proof -
  let ?xs = "[(''AGV1'', \<lparr>path = [1, 4], currentIndex = 0, isChargingTask = False\<rparr>),
              (''AGV3'', \<lparr>path = [3, 6], currentIndex = 0, isChargingTask = False\<rparr>)]"
  let ?md = "\<lparr>path = [5, 6], currentIndex = 0, isChargingTask = False\<rparr>"
  have h1: "distinct (map fst (movementQueue threeTasks))"
    by (simp add: threeTasks_queue)
  have h2: "movementQueue threeTasks = ?xs @ (''AGV2'', ?md) # []"
    by (simp add: threeTasks_queue)
  have h3: "pendingStep ?md"
    by (simp add: pendingStep_def)
  have g: "getAgv threeTasks ''AGV2'' = Some \<lparr>position = 5, battery = 85, status = Busy\<rparr>"
    by (simp add: getAgv_def threeTasks_agvs)
  show ?thesis
    using admission_in_queue_order [OF h1 h2 h3]
    by (simp add: g threeTasks_moves)
qed

text \<open>
  C2 as the specification states it, "the lowest vehicle id wins", fails: after the three
  tasks above AGV2 and AGV3 both have a pending step to the free node 6; AGV3, earlier in
  the queue, is admitted and AGV2 is not.
\<close>

theorem lowest_id_wins_counterexample:
  "map_of (movementQueue threeTasks) ''AGV2'' =
     Some \<lparr>path = [5, 6], currentIndex = 0, isChargingTask = False\<rparr>
   \<and> map_of (movementQueue threeTasks) ''AGV3'' =
     Some \<lparr>path = [3, 6], currentIndex = 0, isChargingTask = False\<rparr>
   \<and> nextPosition \<lparr>path = [5, 6], currentIndex = 0, isChargingTask = False\<rparr> = 6
   \<and> nextPosition \<lparr>path = [3, 6], currentIndex = 0, isChargingTask = False\<rparr> = 6
   \<and> 6 \<notin> occupiedNodes threeTasks
   \<and> (''AGV2'' :: string) < ''AGV3''
   \<and> map mAgvId (movementsToExecute threeTasks) = [''AGV1'', ''AGV3'']"
  by (simp add: threeTasks_queue threeTasks_occupied threeTasks_moves nextPosition_def)

section \<open>Occupancy across task creation and ticks\<close>

lemma firstTask_eq:
  "fst (createTaskInternal 5 6 10 ''high'' False started) =
     \<lparr>agvs = [(''AGV1'', \<lparr>position = 5, battery = 100, status = Busy\<rparr>),
              (''AGV2'', \<lparr>position = 5, battery = 85, status = Idle\<rparr>),
              (''AGV3'', \<lparr>position = 9, battery = 92, status = Idle\<rparr>)],
      tasks = [\<lparr>startNode = 5, endNode = 6, weight = 10, priority = ''high'',
                taskAgv = ''AGV1'', isCharging = False, isAuto = False\<rparr>],
      isRunning = True, totalTasksCompleted = 0,
      occupiedNodes = {1, 5, 9}, reservedNodes = [],
      movementQueue = [(''AGV1'', \<lparr>path = [5, 6], currentIndex = 0, isChargingTask = False\<rparr>)],
      broadcasts = [TaskCreated \<lparr>startNode = 5, endNode = 6, weight = 10, priority = ''high'',
                taskAgv = ''AGV1'', isCharging = False, isAuto = False\<rparr> [5, 6]]\<rparr>"
  by (simp add: started_eq creation_defs insert_commute)

lemma firstTaskDone_fields:
  "agvs firstTaskDone =
     [(''AGV1'', \<lparr>position = 6, battery = 97, status = Idle\<rparr>),
      (''AGV2'', \<lparr>position = 5, battery = 85, status = Idle\<rparr>),
      (''AGV3'', \<lparr>position = 9, battery = 92, status = Idle\<rparr>)]"
  "occupiedNodes firstTaskDone = {1, 6, 9}"
  "movementQueue firstTaskDone = []"
  by (simp_all add: firstTaskDone_def firstTask_eq tick_defs AList.delete_eq insert_Diff_if
        insert_commute)

text \<open>
  C1 on this run: at the end of the last tick AGV1 has moved onto node 5, where AGV2
  still rests.
\<close>

theorem two_vehicles_on_one_node:
  "map (\<lambda>(i, a). (i, position a)) (agvs sharedNodeRun) =
     [(''AGV1'', 5), (''AGV2'', 5), (''AGV3'', 9)]"
proof -
  have q: "movementQueue (fst (createTaskInternal 4 5 10 ''high'' False firstTaskDone)) =
             [(''AGV1'', \<lparr>path = [4, 5], currentIndex = 0, isChargingTask = False\<rparr>)]"
    and o: "occupiedNodes (fst (createTaskInternal 4 5 10 ''high'' False firstTaskDone)) =
             {1, 4, 6, 9}"
    and a: "agvs (fst (createTaskInternal 4 5 10 ''high'' False firstTaskDone)) =
             [(''AGV1'', \<lparr>position = 4, battery = 97, status = Busy\<rparr>),
              (''AGV2'', \<lparr>position = 5, battery = 85, status = Idle\<rparr>),
              (''AGV3'', \<lparr>position = 9, battery = 92, status = Idle\<rparr>)]"
    by (simp_all add: creation_defs firstTaskDone_fields insert_commute)
  show ?thesis
    by (simp add: sharedNodeRun_def tick_defs q o a)
qed

section \<open>A route from assignment to completion\<close>










subsection \<open>What \<open>createTaskInternal\<close> selects\<close>

lemma foldl_select_member:
  "foldl (\<lambda>best current. if P current best then current else best) x xs \<in> set (x # xs)"
  by (induction xs arbitrary: x) auto

lemma selectBest_member: "available \<noteq> [] \<Longrightarrow> selectBest available \<in> set available"
  using foldl_select_member
    [of "\<lambda>current best. battery (snd current) > battery (snd best)" "hd available" "tl available"]
  by (simp add: selectBest_def)

lemma createTaskInternal_success:
  assumes "snd (createTaskInternal startN endN w prio auto s) = Inr t"
  shows "\<exists>a. (taskAgv t, a) \<in> set (agvs s) \<and> status a = Idle \<and> LOW_BATTERY_THRESHOLD < battery a
           \<and> selectBest (availableAGVs s) = (taskAgv t, a)
           \<and> fst (createTaskInternal startN endN w prio auto s) =
               broadcast (TaskCreated t (findPath startN endN))
                 (simulateAGVMovement (taskAgv t) (findPath startN endN) False
                    ((setAgv (taskAgv t) (a\<lparr>status := Busy, position := startN\<rparr>) s)
                       \<lparr>tasks := tasks s @ [t]\<rparr>))"
proof -
  from assms have ne: "availableAGVs s \<noteq> []"
    by (auto simp: createTaskInternal_def Let_def)
  obtain i a where sel: "selectBest (availableAGVs s) = (i, a)"
    by (cases "selectBest (availableAGVs s)")
  from selectBest_member [OF ne] sel have "(i, a) \<in> set (availableAGVs s)" by simp
  then have m: "(i, a) \<in> set (agvs s)" "status a = Idle" "LOW_BATTERY_THRESHOLD < battery a"
    by (auto simp: availableAGVs_def needsCharging_def)
  from assms ne sel have t: "taskAgv t = i"
    by (auto simp: createTaskInternal_def Let_def)
  from assms ne sel have
    "fst (createTaskInternal startN endN w prio auto s) =
               broadcast (TaskCreated t (findPath startN endN))
                 (simulateAGVMovement i (findPath startN endN) False
                    ((setAgv i (a\<lparr>status := Busy, position := startN\<rparr>) s)
                       \<lparr>tasks := tasks s @ [t]\<rparr>))"
    by (auto simp: createTaskInternal_def Let_def)
  with m sel t show ?thesis by auto
qed








section \<open>Requests to create a task\<close>

lemmas request_defs =
  apiTasksCreate_def stringToNumber_def parseIntString_def trim_def isWhiteSpace_def
  nonDecimalLiteral_def decimalLiteral_def exponentPart_def scale10_def isDigit_def
  digitOf_def digitsValue_def

lemma bitLength_values: "bitLength 5 = 3" "bitLength 12 = 4" "bitLength 999999 = 20"
  by (simp_all add: bitLength.simps)

lemma roundToDouble_small:
  "roundToDouble 5 = Finite 5" "roundToDouble 12 = Finite 12"
  by (simp_all add: roundToDouble_def binaryExponent_def twoTo_def bitLength_values Let_def)

lemma doubleNearMillionth:
  "roundToDouble (1 / 1000000) = Finite (4722366482869645 / 4722366482869645213696)"
proof -
  have "\<lfloor>73786976294838206464 / 15625 :: rat\<rfloor> = 4722366482869645"
    by (rule floor_unique) simp_all
  then show ?thesis
    by (simp add: roundToDouble_def binaryExponent_def twoTo_def bitLength_values Let_def)
qed

text \<open>
  On numbers the three checks of \<open>POST /api/tasks/create\<close> do what they are written
  for: a request whose start and end node are the same number, or one of which is a
  number outside 1..9, gets one of the three 400 responses (missing fields, same start
  and end, nodes out of range) before \<open>createTaskInternal\<close> is called, and the state is
  the one the handler was given.
\<close>

lemma api_tasks_create_rejects_numbers:
  assumes "a = b \<or> a < 1 \<or> 9 < a \<or> b < 1 \<or> 9 < b"
  shows "apiTasksCreate (JNumber a) (JNumber b) w prio s =
           Some (s, Inl (if a = 0 \<or> b = 0 \<or> falsy w then MissingFields
                         else if a = b then SameStartEnd
                         else NodesOutOfRange))"
  using assms by (auto simp: apiTasksCreate_def)

text \<open>
  C9 on the started service. The body \<open>{"startNode": "5", "endNode": 5, "weight": 10}\<close>
  passes the three checks, since the string \<open>"5"\<close> is not \<open>===\<close> the number 5, and
  \<open>createTaskInternal\<close> is called with \<open>parseInt\<close> of both, 5 and 5: AGV1 is selected, set
  to busy and placed on node 5, where AGV2 stands, the task from 5 to 5 enters the task
  list, and since the path of a task from a node to itself has one node only, nothing
  enters the movement queue, so no tick will ever complete the task and release the
  vehicle. In the same way the start 1.5 with the end 1 creates a task from node 1 to
  node 1, and the start \<open>"12abc"\<close>, which compares as \<open>NaN\<close>, creates a task from node
  12. The same node sent twice as the number 5 is rejected and leaves the state as it
  was.
\<close>

theorem same_node_request_accepted:
  "apiTasksCreate (JString ''5'') (JNumber 5) (JNumber 10) None started =
     Some (createTaskInternal 5 5 10 ''medium'' False started)
   \<and> snd (createTaskInternal 5 5 10 ''medium'' False started) =
       Inr \<lparr>startNode = 5, endNode = 5, weight = 10, priority = ''medium'',
            taskAgv = ''AGV1'', isCharging = False, isAuto = False\<rparr>
   \<and> agvs (fst (createTaskInternal 5 5 10 ''medium'' False started)) =
       [(''AGV1'', \<lparr>position = 5, battery = 100, status = Busy\<rparr>),
        (''AGV2'', \<lparr>position = 5, battery = 85, status = Idle\<rparr>),
        (''AGV3'', \<lparr>position = 9, battery = 92, status = Idle\<rparr>)]
   \<and> tasks (fst (createTaskInternal 5 5 10 ''medium'' False started)) =
       [\<lparr>startNode = 5, endNode = 5, weight = 10, priority = ''medium'',
         taskAgv = ''AGV1'', isCharging = False, isAuto = False\<rparr>]
   \<and> movementQueue (fst (createTaskInternal 5 5 10 ''medium'' False started)) = []
   \<and> apiTasksCreate (JNumber (3 / 2)) (JNumber 1) (JNumber 10) None started =
       Some (createTaskInternal 1 1 10 ''medium'' False started)
   \<and> apiTasksCreate (JString ''12abc'') (JNumber 5) (JNumber 10) None started =
       Some (createTaskInternal 12 5 10 ''medium'' False started)
   \<and> apiTasksCreate (JNumber 5) (JNumber 5) (JNumber 10) None started =
       Some (started, Inl SameStartEnd)"
proof -
  have c: "createTaskInternal 5 5 10 ''medium'' False started =
     (\<lparr>agvs = [(''AGV1'', \<lparr>position = 5, battery = 100, status = Busy\<rparr>),
               (''AGV2'', \<lparr>position = 5, battery = 85, status = Idle\<rparr>),
               (''AGV3'', \<lparr>position = 9, battery = 92, status = Idle\<rparr>)],
       tasks = [\<lparr>startNode = 5, endNode = 5, weight = 10, priority = ''medium'',
                 taskAgv = ''AGV1'', isCharging = False, isAuto = False\<rparr>],
       isRunning = True, totalTasksCompleted = 0,
       occupiedNodes = {1, 5, 9}, reservedNodes = [], movementQueue = [],
       broadcasts =
         [TaskCreated \<lparr>startNode = 5, endNode = 5, weight = 10, priority = ''medium'',
                 taskAgv = ''AGV1'', isCharging = False, isAuto = False\<rparr> [5]]\<rparr>,
      Inr \<lparr>startNode = 5, endNode = 5, weight = 10, priority = ''medium'',
                 taskAgv = ''AGV1'', isCharging = False, isAuto = False\<rparr>)"
    by (simp add: started_eq creation_defs)
  have n: "\<not> lessThanNumber (Finite 5) (roundToDouble (1 / 10 ^ 6))"
          "\<not> lessThanNumber (Finite 10) (roundToDouble (1 / 10 ^ 6))"
          "\<not> lessThanNumber (Finite 1) (roundToDouble (1 / 10 ^ 6))"
          "\<not> lessThanNumber (Finite (3 / 2)) (roundToDouble (1 / 10 ^ 6))"
    by (simp_all add: doubleNearMillionth)
  have f: "\<lfloor>3 / 2 :: rat\<rfloor> = 1"
    by (rule floor_unique) simp_all
  have 1: "apiTasksCreate (JString ''5'') (JNumber 5) (JNumber 10) None started =
             Some (createTaskInternal 5 5 10 ''medium'' False started)"
    using n by (simp add: request_defs roundToDouble_small)
  have 2: "apiTasksCreate (JNumber (3 / 2)) (JNumber 1) (JNumber 10) None started =
             Some (createTaskInternal 1 1 10 ''medium'' False started)"
    using n f by (simp add: apiTasksCreate_def)
  have 3: "apiTasksCreate (JString ''12abc'') (JNumber 5) (JNumber 10) None started =
             Some (createTaskInternal 12 5 10 ''medium'' False started)"
    using n by (simp add: request_defs roundToDouble_small)
  have 4: "apiTasksCreate (JNumber 5) (JNumber 5) (JNumber 10) None started =
             Some (started, Inl SameStartEnd)"
    by (simp add: apiTasksCreate_def)
  show ?thesis
    unfolding 1 2 3 4 by (simp add: c)
qed

section \<open>Low battery and task assignment\<close>

text \<open>
  \<open>createTaskInternal\<close> assigns a task only to a vehicle that is idle with battery above
  the threshold, so never to one that is charging, on a charging route or low on battery.
\<close>

lemma createTaskInternal_never_low:
  assumes "distinct (map fst (agvs s))"
    and "snd (createTaskInternal startN endN w prio auto s) = Inr t"
  shows "\<exists>a. getAgv s (taskAgv t) = Some a \<and> status a = Idle \<and> 30 < battery a"
proof -
  from createTaskInternal_success [OF assms(2)] obtain a where
    "(taskAgv t, a) \<in> set (agvs s)" "status a = Idle" "LOW_BATTERY_THRESHOLD < battery a"
    by blast
  with assms(1) show ?thesis
    by (auto simp: getAgv_def LOW_BATTERY_THRESHOLD_def)
qed

text \<open>
  C5 on this state: the 5-second auto-task timer takes the first idle vehicle whatever
  its battery, and hands AGV1 (battery 28) a transport task from 2 to 7;
  \<open>createTaskInternal\<close> refuses on the same state.
\<close>

theorem low_battery_vehicle_gets_auto_task:
  "getAgv idleLow ''AGV1'' = Some \<lparr>position = 9, battery = 28, status = Idle\<rparr>
   \<and> needsCharging \<lparr>position = 9, battery = 28, status = Idle\<rparr>
   \<and> getAgv (autoTaskTimer 2 7 20 idleLow) ''AGV1'' =
       Some \<lparr>position = 2, battery = 28, status = Executing\<rparr>
   \<and> tasks (autoTaskTimer 2 7 20 idleLow) =
       [\<lparr>startNode = 2, endNode = 7, weight = 20, priority = [],
         taskAgv = ''AGV1'', isCharging = False, isAuto = True\<rparr>]
   \<and> snd (createTaskInternal 2 7 20 ''high'' True idleLow) = Inl NoAvailableAGV"
  by (simp add: idleLow_def autoTaskTimer_def getAvailableAGV_def creation_defs)

section \<open>Claims about scored assignment\<close>

lemma hd_insort_key:
  "hd (insort_key f a ys) = (if ys = [] \<or> f a \<le> f (hd ys) then a else hd ys)"
  by (cases ys) simp_all

lemma hd_sort_key_first_least:
  fixes f :: "'a \<Rightarrow> int"
  assumes "xs \<noteq> []"
  shows "\<exists>pre x post. xs = pre @ x # post \<and> hd (sort_key f xs) = x
           \<and> (\<forall>y \<in> set pre. f x < f y) \<and> (\<forall>y \<in> set post. f x \<le> f y)"
  using assms
proof (induction xs)
  case Nil
  then show ?case by simp
next
  case (Cons a xs)
  show ?case
  proof (cases "xs = []")
    case True
    show ?thesis
    proof (intro exI conjI)
      show "a # xs = [] @ a # []" using True by simp
      show "hd (sort_key f (a # xs)) = a" using True by simp
      show "\<forall>y \<in> set []. f a < f y" by simp
      show "\<forall>y \<in> set []. f a \<le> f y" by simp
    qed
  next
    case False
    from Cons.IH [OF False] obtain pre x post where
      xs: "xs = pre @ x # post" and h: "hd (sort_key f xs) = x"
      and lt: "\<forall>y \<in> set pre. f x < f y" and le: "\<forall>y \<in> set post. f x \<le> f y"
      by blast
    have ne: "sort_key f xs \<noteq> []" using False by (metis length_0_conv length_sort)
    have hd: "hd (sort_key f (a # xs)) = (if f a \<le> f x then a else x)"
      using ne h by (simp add: hd_insort_key)
    show ?thesis
    proof (cases "f a \<le> f x")
      case True
      have all: "\<forall>y \<in> set xs. f a \<le> f y"
      proof
        fix y assume "y \<in> set xs"
        then have "y \<in> set pre \<or> y = x \<or> y \<in> set post" by (auto simp: xs)
        then have "f x \<le> f y" using lt le by (auto simp: less_imp_le)
        with True show "f a \<le> f y" by simp
      qed
      show ?thesis
      proof (intro exI conjI)
        show "a # xs = [] @ a # xs" by simp
        show "hd (sort_key f (a # xs)) = a" using hd True by simp
        show "\<forall>y \<in> set []. f a < f y" by simp
        show "\<forall>y \<in> set xs. f a \<le> f y" by (rule all)
      qed
    next
      case False
      show ?thesis
      proof (intro exI conjI)
        show "a # xs = (a # pre) @ x # post" by (simp add: xs)
        show "hd (sort_key f (a # xs)) = x" using hd False by simp
        show "\<forall>y \<in> set (a # pre). f x < f y" using lt False by simp
        show "\<forall>y \<in> set post. f x \<le> f y" by (rule le)
      qed
    qed
  qed
qed

lemma scoreAll_Inr:
  "scoreAll avs task = Inr scored \<Longrightarrow>
     map fst scored = avs \<and> (\<forall>(a, sc) \<in> set scored. calculateAGVScore a task = Inr sc)"
proof (induction avs arbitrary: scored)
  case Nil
  then show ?case by simp
next
  case (Cons a avs)
  from Cons.prems obtain sc rest where
    "calculateAGVScore a task = Inr sc" "scoreAll avs task = Inr rest" "scored = (a, sc) # rest"
    by (auto split: sum.splits)
  with Cons.IH [of rest] show ?case by auto
qed

lemma positions_lookup:
  assumes "1 \<le> a" "a \<le> 9"
  shows "map_of positions a = Some ((a - 1) mod 3, (a - 1) div 3)"
proof -
  have "a = 1 \<or> a = 2 \<or> a = 3 \<or> a = 4 \<or> a = 5 \<or> a = 6 \<or> a = 7 \<or> a = 8 \<or> a = 9"
    using assms by presburger
  then show ?thesis
    by (elim disjE) (simp_all add: positions_def)
qed

lemma heuristic_manhattan:
  assumes "1 \<le> a" "a \<le> 9" "1 \<le> b" "b \<le> 9"
  shows "heuristic a b =
           Inr (\<bar>(a - 1) mod 3 - (b - 1) mod 3\<bar> + \<bar>(a - 1) div 3 - (b - 1) div 3\<bar>)"
  by (simp add: heuristic_def positions_lookup assms)

lemmas route_defs =
  planPickup_def aStarPathfinding_def aStarPathfindingIn_def heuristic_def positions_def aStarLoop.simps
  visitNeighbor_def nodeConnections_def neighborsOf_def initialGScore_def upto.simps
  reconstructPath_def reconstructLoop.simps
  dijkstraWithTimeWindow_def dijkstraWithTimeWindowIn_def dijkstraLoop.simps closest_def
  relaxNeighbor_def isTimeSlotAvailable_def Let_def

lemmas score_defs =
  calculateAGVScore_def priorityBonus_def algorithmBonus_def heuristic_def positions_def

text \<open>
  C3, as the code has it: every idle vehicle is a candidate, whatever its battery. A
  candidate's score is (10 - manhattan(vehicle.pos, task.pickup)) * 10, plus 30 for
  battery above 50 or 15 for battery above 25, plus the bonus of the vehicle's own
  configured priority (High 20, Medium 10, Low 5, otherwise 10), plus the bonus of its
  algorithm (A* 15, Dijkstra+TimeWindow 10, ACO 12, otherwise 10). The vehicle the
  assignment returns has the highest score among the idle vehicles, and is the first
  such in fleet order.
\<close>

theorem highest_score_first_in_fleet:
  assumes "assignTaskToAGV now vehicles task = Some (Inr (Some i, task'))"
  shows "(\<exists>pre agv post sc.
            filter (\<lambda>a. vehicleStatus a = Idle) vehicles = pre @ agv # post
          \<and> vehicleId agv = i
          \<and> calculateAGVScore agv task = Inr sc
          \<and> (\<forall>a \<in> set pre. \<exists>x. calculateAGVScore a task = Inr x \<and> x < sc)
          \<and> (\<forall>a \<in> set post. \<exists>x. calculateAGVScore a task = Inr x \<and> x \<le> sc)
          \<and> assignedAGV task' = Some i \<and> taskStatus task' = Assigned)
    \<and> (\<forall>a d. heuristic (vehiclePosition a) (pickupLocation task) = Inr d \<longrightarrow>
          calculateAGVScore a task =
            Inr ((10 - d) * 10
                 + (if 50 < vehicleBattery a then 30 else if 25 < vehicleBattery a then 15 else 0)
                 + (if vehiclePriority a = ''High'' then 20
                    else if vehiclePriority a = ''Medium'' then 10
                    else if vehiclePriority a = ''Low'' then 5 else 10)
                 + (if vehicleAlgorithm a = ''A*'' then 15
                    else if vehicleAlgorithm a = ''Dijkstra+TimeWindow'' then 10
                    else if vehicleAlgorithm a = ''ACO'' then 12 else 10)))
    \<and> (\<forall>a b. 1 \<le> a \<and> a \<le> 9 \<and> 1 \<le> b \<and> b \<le> 9 \<longrightarrow>
          heuristic a b =
            Inr (\<bar>(a - 1) mod 3 - (b - 1) mod 3\<bar> + \<bar>(a - 1) div 3 - (b - 1) div 3\<bar>))"
proof -
  let ?avs = "filter (\<lambda>a. vehicleStatus a = Idle) vehicles"
  let ?key = "\<lambda>(agv :: serverAgv, score :: int). - score"
  have ne: "?avs \<noteq> []"
  proof
    assume "?avs = []"
    with assms show False by (simp add: assignTaskToAGV_def)
  qed
  obtain scored where scored: "scoreAll ?avs task = Inr scored"
  proof (cases "scoreAll ?avs task")
    case (Inl e)
    with assms ne show ?thesis by (simp add: assignTaskToAGV_def)
  next
    case (Inr scored)
    then show ?thesis by (rule that)
  qed
  define sel where "sel = fst (hd (sort_key ?key scored))"
  define route where "route = planPickup now sel task"
  have unfolded: "assignTaskToAGV now vehicles task =
     (case route of
        None \<Rightarrow> None
      | Some (Inl e) \<Rightarrow> Some (Inl e)
      | Some (Inr pth) \<Rightarrow>
          if length pth > 0
          then Some (Inr (Some (vehicleId sel),
                          task\<lparr>assignedAGV := Some (vehicleId sel), plannedPath := Some pth,
                               taskAlgorithm := Some (vehicleAlgorithm sel),
                               taskStatus := Assigned\<rparr>))
          else Some (Inr (None, task)))"
    unfolding sel_def route_def
    by (simp add: assignTaskToAGV_def Let_def ne scored)
  have res: "i = vehicleId sel" "assignedAGV task' = Some i" "taskStatus task' = Assigned"
    using assms unfolding unfolded
    by (auto split: option.splits sum.splits if_splits)
  note sa = scoreAll_Inr [OF scored]
  from sa ne have "scored \<noteq> []" by auto
  from hd_sort_key_first_least [OF this, of ?key] obtain pre x post where
    dec: "scored = pre @ x # post" and h: "hd (sort_key ?key scored) = x"
    and lt: "\<forall>y \<in> set pre. ?key x < ?key y" and le: "\<forall>y \<in> set post. ?key x \<le> ?key y"
    by blast
  obtain agv sc where x: "x = (agv, sc)" by (cases x)
  have avs: "?avs = map fst pre @ agv # map fst post"
    using sa dec x by auto
  have sc: "calculateAGVScore agv task = Inr sc"
    using sa dec x by auto
  have p1: "\<forall>a \<in> set (map fst pre). \<exists>y. calculateAGVScore a task = Inr y \<and> y < sc"
    using sa lt unfolding dec x by fastforce
  have p2: "\<forall>a \<in> set (map fst post). \<exists>y. calculateAGVScore a task = Inr y \<and> y \<le> sc"
    using sa le unfolding dec x by fastforce
  have sel: "sel = agv" by (simp add: sel_def h x)
  have first:
    "\<exists>pre agv post sc.
            ?avs = pre @ agv # post
          \<and> vehicleId agv = i
          \<and> calculateAGVScore agv task = Inr sc
          \<and> (\<forall>a \<in> set pre. \<exists>x. calculateAGVScore a task = Inr x \<and> x < sc)
          \<and> (\<forall>a \<in> set post. \<exists>x. calculateAGVScore a task = Inr x \<and> x \<le> sc)
          \<and> assignedAGV task' = Some i \<and> taskStatus task' = Assigned"
  proof (intro exI conjI)
    show "?avs = map fst pre @ agv # map fst post" by (rule avs)
    show "vehicleId agv = i" using res(1) sel by simp
    show "calculateAGVScore agv task = Inr sc" by (rule sc)
    show "\<forall>a \<in> set (map fst pre). \<exists>y. calculateAGVScore a task = Inr y \<and> y < sc" by (rule p1)
    show "\<forall>a \<in> set (map fst post). \<exists>y. calculateAGVScore a task = Inr y \<and> y \<le> sc" by (rule p2)
    show "assignedAGV task' = Some i" by (rule res(2))
    show "taskStatus task' = Assigned" by (rule res(3))
  qed
  have second: "\<forall>a d. heuristic (vehiclePosition a) (pickupLocation task) = Inr d \<longrightarrow>
          calculateAGVScore a task =
            Inr ((10 - d) * 10
                 + (if 50 < vehicleBattery a then 30 else if 25 < vehicleBattery a then 15 else 0)
                 + (if vehiclePriority a = ''High'' then 20
                    else if vehiclePriority a = ''Medium'' then 10
                    else if vehiclePriority a = ''Low'' then 5 else 10)
                 + (if vehicleAlgorithm a = ''A*'' then 15
                    else if vehicleAlgorithm a = ''Dijkstra+TimeWindow'' then 10
                    else if vehicleAlgorithm a = ''ACO'' then 12 else 10))"
    by (simp add: calculateAGVScore_def priorityBonus_def algorithmBonus_def)
  have third: "\<forall>a b. 1 \<le> a \<and> a \<le> 9 \<and> 1 \<le> b \<and> b \<le> 9 \<longrightarrow>
          heuristic a b =
            Inr (\<bar>(a - 1) mod 3 - (b - 1) mod 3\<bar> + \<bar>(a - 1) div 3 - (b - 1) div 3\<bar>)"
    by (simp add: heuristic_manhattan)
  show ?thesis
    by (rule conjI [OF first conjI [OF second third]])
qed

lemma assign_pickup_6:
  "assignTaskToAGV 0 serverFleet (pickupAt 6) =
     Some (Inr (Some ''AGV2'',
        (pickupAt 6)\<lparr>assignedAGV := Some ''AGV2'', plannedPath := Some [5, 6],
                     taskAlgorithm := Some ''Dijkstra+TimeWindow'', taskStatus := Assigned\<rparr>))"
  by (simp add: assignTaskToAGV_def serverFleet_def pickupAt_def score_defs route_defs)

theorem highest_score_first_in_fleet_witness:
  "(\<exists>pre agv post.
      serverFleet = pre @ agv # post \<and> vehicleId agv = ''AGV2''
      \<and> calculateAGVScore agv (pickupAt 6) = Inr 140)
   \<and> map (\<lambda>a. calculateAGVScore a (pickupAt 6)) serverFleet = [Inr 135, Inr 140, Inr 137]"
proof -
  have f: "filter (\<lambda>a. vehicleStatus a = Idle) serverFleet = serverFleet"
    by (simp add: serverFleet_def)
  have s: "map (\<lambda>a. calculateAGVScore a (pickupAt 6)) serverFleet = [Inr 135, Inr 140, Inr 137]"
    by (simp add: serverFleet_def pickupAt_def score_defs)
  from highest_score_first_in_fleet [OF assign_pickup_6] obtain pre agv post sc where
    d: "serverFleet = pre @ agv # post" "vehicleId agv = ''AGV2''"
    "calculateAGVScore agv (pickupAt 6) = Inr sc"
    unfolding f by blast
  have "agv \<in> set serverFleet" by (subst d(1)) simp
  with d(2) have "agv = serverFleet ! 1"
    by (auto simp: serverFleet_def)
  then have "calculateAGVScore agv (pickupAt 6) = Inr 140"
    by (simp add: serverFleet_def pickupAt_def score_defs)
  with d s show ?thesis by blast
qed

text \<open>
  C3 as the specification states it fails twice. For a pickup at node 6 the code scores
  the fleet 135, 140, 137 and assigns AGV2, while with the priority bonus taken from the
  task AGV3 would lead AGV2 (137 against 135). And an idle vehicle with battery 20, below
  the 30% threshold, is a candidate and is assigned.
\<close>

theorem task_priority_and_threshold_counterexample:
  "assignTaskToAGV 0 serverFleet (pickupAt 6) =
     Some (Inr (Some ''AGV2'',
        (pickupAt 6)\<lparr>assignedAGV := Some ''AGV2'', plannedPath := Some [5, 6],
                     taskAlgorithm := Some ''Dijkstra+TimeWindow'', taskStatus := Assigned\<rparr>))
   \<and> map (\<lambda>a. specScore a (pickupAt 6)) serverFleet = [120, 135, 137]
   \<and> vehicleBattery drainedVehicle = 20
   \<and> assignTaskToAGV 0 [drainedVehicle] (pickupAt 6) =
       Some (Inr (Some ''AGV2'',
        (pickupAt 6)\<lparr>assignedAGV := Some ''AGV2'', plannedPath := Some [5, 6],
                     taskAlgorithm := Some ''A*'', taskStatus := Assigned\<rparr>))"
proof -
  have "map (\<lambda>a. specScore a (pickupAt 6)) serverFleet = [120, 135, 137]"
    by (simp add: specScore_def serverFleet_def pickupAt_def algorithmBonus_def heuristic_def
          positions_def)
  moreover have "assignTaskToAGV 0 [drainedVehicle] (pickupAt 6) =
       Some (Inr (Some ''AGV2'',
        (pickupAt 6)\<lparr>assignedAGV := Some ''AGV2'', plannedPath := Some [5, 6],
                     taskAlgorithm := Some ''A*'', taskStatus := Assigned\<rparr>))"
    by (simp add: assignTaskToAGV_def drainedVehicle_def pickupAt_def score_defs route_defs)
  ultimately show ?thesis
    using assign_pickup_6 by (simp add: drainedVehicle_def)
qed

section \<open>Route search between disconnected nodes\<close>

lemma connected_refl: "connected g av a a"
  by (simp add: connected_def)

lemma connected_first_step:
  "v \<in> set (neighborsOf g u) \<Longrightarrow> v \<notin> set av \<Longrightarrow> connected g av v b \<Longrightarrow> connected g av u b"
  unfolding connected_def
  by (rule converse_rtrancl_into_rtrancl [of u v]) (simp_all add: edges_def)

lemma connected_last_step:
  "connected g av a u \<Longrightarrow> v \<in> set (neighborsOf g u) \<Longrightarrow> v \<notin> set av \<Longrightarrow> connected g av a v"
  unfolding connected_def
  by (rule rtrancl_into_rtrancl [of a u]) (simp_all add: edges_def)

lemma not_connected_outside:
  assumes "a \<in> S" and "b \<notin> S"
    and "\<forall>u \<in> S. \<forall>v \<in> set (neighborsOf g u). v \<notin> set av \<longrightarrow> v \<in> S"
  shows "\<not> connected g av a b"
proof
  assume "connected g av a b"
  then have "(a, b) \<in> (edges g av)\<^sup>*" by (simp add: connected_def)
  then have "b \<in> S"
  proof (induction rule: rtrancl_induct)
    case base
    show ?case by (rule assms(1))
  next
    case (step y z)
    with assms(3) show ?case by (auto simp: edges_def)
  qed
  with assms(2) show False by simp
qed

subsection \<open>\<open>findPath\<close>\<close>

lemma findPathLoop_disconnected:
  "\<forall>(n, p) \<in> set queue. \<not> connected g [] n endN \<Longrightarrow>
     findPathLoop g endN visited queue = None"
proof (induction g endN visited queue rule: findPathLoop.induct)
  case (1 g endN visited)
  show ?case by simp
next
  case (2 g endN visited current pth queue)
  from 2(3) have cur: "\<not> connected g [] current endN"
    and rest: "\<forall>(n, p) \<in> set queue. \<not> connected g [] n endN"
    by auto
  from cur have ne: "current \<noteq> endN"
    using connected_refl by blast
  show ?case
  proof (cases "current \<in> visited")
    case True
    with ne 2(1) rest show ?thesis by simp
  next
    case False
    have "\<not> connected g [] v endN" if "v \<in> set (neighborsOf g current)" for v
      using cur connected_first_step [OF that, of "[]" endN] by auto
    with rest have
      "\<forall>(n, p) \<in> set (queue @ map (\<lambda>neighbor. (neighbor, pth @ [neighbor]))
                        (filter (\<lambda>neighbor. neighbor \<notin> insert current visited)
                                (neighborsOf g current))). \<not> connected g [] n endN"
      by auto
    from 2(2) [OF ne False this] ne False show ?thesis by simp
  qed
qed

lemma findPathIn_disconnected:
  assumes "\<not> connected g [] start endN"
  shows "findPathIn g start endN = [start, endN]"
proof -
  from assms have ne: "start \<noteq> endN"
    using connected_refl by blast
  have "findPathLoop g endN {} [(start, [start])] = None"
    by (rule findPathLoop_disconnected) (simp add: assms)
  with ne show ?thesis by (simp add: findPathIn_def)
qed

subsection \<open>A*\<close>

lemma heuristic_defined:
  "map_of positions a \<noteq> None \<Longrightarrow> map_of positions b \<noteq> None \<Longrightarrow> \<exists>h. heuristic a b = Inr h"
  by (auto simp: heuristic_def split: option.splits)

lemma jsLess_None: "\<not> jsLess x None"
  by (cases "(x, None :: jsnum option)" rule: jsLess.cases) auto

lemma jsLess_defined: "jsLess x (map_of gs k) \<Longrightarrow> k \<in> fst ` set gs"
proof (cases "map_of gs k")
  case None
  assume "jsLess x (map_of gs k)"
  with None jsLess_None show ?thesis by simp
next
  case (Some v)
  then have "(k, v) \<in> set gs" by (rule map_of_SomeD)
  then show ?thesis by (rule rev_image_eqI) simp
qed

lemma visitNeighbor_inv:
  assumes "searchInv g endN av st" and "\<not> connected g av current endN"
    and "neighbor \<in> set (neighborsOf g current)" and "map_of positions endN \<noteq> None"
  shows "\<exists>st'. visitNeighbor endN av current neighbor st = Inr st' \<and> searchInv g endN av st'"
proof (cases "neighbor \<in> closedSet st \<or> neighbor \<in> set av")
  case True
  with assms(1) show ?thesis by (simp add: visitNeighbor_def)
next
  case False
  then have nb: "\<not> connected g av neighbor endN"
    using assms(2) connected_first_step [OF assms(3), of av endN] by auto
  show ?thesis
  proof (cases "jsSucc (map_of (gScore st) current)")
    case None
    with False assms(1) show ?thesis by (simp add: visitNeighbor_def)
  next
    case (Some v)
    show ?thesis
    proof (cases v)
      case Infinity
      with Some False assms(1) show ?thesis by (simp add: visitNeighbor_def)
    next
      case (Num t)
      show ?thesis
      proof (cases "jsLess (Some (Num t)) (map_of (gScore st) neighbor)")
        case no: False
        with Some Num False assms(1) show ?thesis by (simp add: visitNeighbor_def)
      next
        case yes: True
        from jsLess_defined [OF yes] have key: "neighbor \<in> fst ` set (gScore st)" .
        have "\<forall>k \<in> fst ` set (gScore st). map_of positions k \<noteq> None"
          using assms(1) unfolding searchInv_def by blast
        with key have "map_of positions neighbor \<noteq> None"
          by blast
        from heuristic_defined [OF this assms(4)] obtain h where
          h: "heuristic neighbor endN = Inr h" ..
        let ?st' = "st\<lparr>cameFrom := AList.update neighbor current (cameFrom st),
                        gScore := AList.update neighbor (Num t) (gScore st),
                        openSet :=
                          (if neighbor \<in> fst ` set (openSet st) then openSet st
                           else openSet st @ [(neighbor, int t + h)])\<rparr>"
        have v: "visitNeighbor endN av current neighbor st = Inr ?st'"
          using False Some Num yes h by (simp add: visitNeighbor_def)
        have "fst ` set (AList.update neighbor (Num t) (gScore st)) = fst ` set (gScore st)"
          using key by (auto simp: dom_update)
        with assms(1) nb have "searchInv g endN av ?st'"
          by (auto simp: searchInv_def)
        with v show ?thesis by blast
      qed
    qed
  qed
qed

lemma visitNeighbors_inv:
  assumes "searchInv g endN av st" and "\<not> connected g av current endN"
    and "set ns \<subseteq> set (neighborsOf g current)" and "map_of positions endN \<noteq> None"
  shows "\<exists>st'. visitNeighbors endN av current ns st = Inr st' \<and> searchInv g endN av st'"
  using assms(1,3)
proof (induction ns arbitrary: st)
  case Nil
  then show ?case by simp
next
  case (Cons n ns)
  from Cons.prems(2) have n: "n \<in> set (neighborsOf g current)"
    and ns: "set ns \<subseteq> set (neighborsOf g current)"
    by auto
  from visitNeighbor_inv [OF Cons.prems(1) assms(2) n assms(4)] obtain st1 where
    1: "visitNeighbor endN av current n st = Inr st1" and i1: "searchInv g endN av st1"
    by blast
  from Cons.IH [OF i1 ns] 1 show ?case by simp
qed

lemma aStarLoop_disconnected:
  "searchInv g endN av st \<Longrightarrow> map_of positions endN \<noteq> None \<Longrightarrow>
     aStarLoop g endN av st = Some (Inr [])"
proof (induction g endN av st rule: aStarLoop.induct)
  case (1 g endN av st)
  show ?case
  proof (cases "sort_key snd (openSet st)")
    case Nil
    then show ?thesis by (subst aStarLoop.simps) simp
  next
    case (Cons x rest)
    obtain current f where x: "x = (current, f)" by (cases x)
    have sub: "set (sort_key snd (openSet st)) = set (openSet st)" by simp
    have "(current, f) \<in> set (openSet st)"
      using Cons x sub by (metis list.set_intros(1))
    with 1(2) have cur: "\<not> connected g av current endN"
      by (auto simp: searchInv_def)
    then have ne: "current \<noteq> endN"
      using connected_refl by blast
    have "set rest \<subseteq> set (openSet st)"
      using Cons sub by (metis set_subset_Cons)
    with 1(2) have inv0:
      "searchInv g endN av (st\<lparr>openSet := rest, closedSet := insert current (closedSet st)\<rparr>)"
      by (auto simp: searchInv_def)
    from visitNeighbors_inv [OF inv0 cur subset_refl 1(3)] obtain st' where
      v: "visitNeighbors endN av current (neighborsOf g current)
            (st\<lparr>openSet := rest, closedSet := insert current (closedSet st)\<rparr>) = Inr st'"
      and inv': "searchInv g endN av st'"
      by blast
    from 1(1) [OF Cons x [symmetric] ne v inv' 1(3)]
    have "aStarLoop g endN av st' = Some (Inr [])" .
    then show ?thesis
      by (subst aStarLoop.simps) (simp add: Cons x ne v)
  qed
qed

lemma initialGScore_keys:
  "map_of positions start \<noteq> None \<Longrightarrow>
     \<forall>k \<in> fst ` set (initialGScore start). map_of positions k \<noteq> None"
proof -
  assume s: "map_of positions start \<noteq> None"
  have "map_of positions k \<noteq> None" if "k \<in> set [1..9]" for k
    using that positions_lookup [of k] by simp
  with s show ?thesis
    by (auto simp: initialGScore_def dom_update)
qed

lemma aStarPathfindingIn_disconnected:
  assumes "\<not> connected g av start endN" and "heuristic start endN = Inr h"
  shows "aStarPathfindingIn g start endN av = Some (Inr [])"
proof -
  from assms(2) have p: "map_of positions start \<noteq> None" "map_of positions endN \<noteq> None"
    by (auto simp: heuristic_def split: option.splits)
  have "searchInv g endN av
          \<lparr>openSet = [(start, h)], closedSet = {}, cameFrom = [],
           gScore = initialGScore start\<rparr>"
    using assms(1) initialGScore_keys [OF p(1)] by (simp add: searchInv_def)
  from aStarLoop_disconnected [OF this p(2)] assms(2) show ?thesis
    by (simp add: aStarPathfindingIn_def)
qed

subsection \<open>Dijkstra with time windows\<close>

lemma jsLess_left_Num: "jsLess x y \<Longrightarrow> \<exists>a. x = Some (Num a)"
  by (cases "(x, y)" rule: jsLess.cases) auto

lemma closest_finite_aux:
  "fst (foldl (\<lambda>(current, minDistance) n.
                   if jsLess (map_of dist n) (Some minDistance)
                   then (Some n, the (map_of dist n)) else (current, minDistance))
                acc unv) = Some c \<Longrightarrow> (\<exists>d. map_of dist c = Some (Num d)) \<or> fst acc = Some c"
proof (induction unv arbitrary: acc)
  case Nil
  then show ?case by simp
next
  case (Cons n unv)
  obtain cur m where acc: "acc = (cur, m)" by (cases acc)
  show ?case
  proof (cases "jsLess (map_of dist n) (Some m)")
    case True
    from jsLess_left_Num [OF True] obtain a where a: "map_of dist n = Some (Num a)" ..
    from Cons.IH [of "(Some n, the (map_of dist n))"] Cons.prems True a
    show ?thesis unfolding acc by auto
  next
    case False
    from Cons.IH [of "(cur, m)"] Cons.prems False
    show ?thesis unfolding acc by auto
  qed
qed

lemma closest_finite: "closest dist unv = Some c \<Longrightarrow> \<exists>d. map_of dist c = Some (Num d)"
  using closest_finite_aux [of dist "(None, Infinity)" unv c] by (simp add: closest_def)

lemma relaxNeighbor_inv:
  assumes "dijkstraInv g start endN st" and "connected g [] start current"
    and "neighbor \<in> set (neighborsOf g current)" and "\<not> connected g [] start endN"
  shows "dijkstraInv g start endN (relaxNeighbor ws slots current neighbor st)"
proof -
  have nb: "connected g [] start neighbor"
    using connected_last_step [OF assms(2,3)] by simp
  with assms(4) have ne: "neighbor \<noteq> endN" by auto
  have "dijkstraInv g start endN
          (st\<lparr>distances := AList.update neighbor (Num alt) (distances st),
              previous := AList.update neighbor current (previous st)\<rparr>)" for alt
    using assms(1) nb ne by (auto simp: dijkstraInv_def update_conv')
  with assms(1) show ?thesis
    by (simp add: relaxNeighbor_def Let_def split: option.splits jsnum.splits)
qed

lemma relaxNeighbors_inv:
  assumes "connected g [] start current" and "\<not> connected g [] start endN"
  shows "dijkstraInv g start endN st \<Longrightarrow> set ns \<subseteq> set (neighborsOf g current) \<Longrightarrow>
           dijkstraInv g start endN (fold (relaxNeighbor ws slots current) ns st)"
proof (induction ns arbitrary: st)
  case Nil
  then show ?case by simp
next
  case (Cons n ns)
  from Cons.prems(2) have n: "n \<in> set (neighborsOf g current)"
    and ns: "set ns \<subseteq> set (neighborsOf g current)"
    by auto
  from relaxNeighbor_inv [OF Cons.prems(1) assms(1) n assms(2)]
  have "dijkstraInv g start endN (relaxNeighbor ws slots current n st)" .
  from Cons.IH [OF this ns] show ?case by simp
qed

lemma dijkstraLoop_inv:
  "dijkstraInv g start endN st \<Longrightarrow> \<not> connected g [] start endN \<Longrightarrow>
     dijkstraInv g start endN (dijkstraLoop g endN ws slots st)"
proof (induction g endN ws slots st rule: dijkstraLoop.induct)
  case (1 g endN ws slots st)
  show ?case
  proof (cases "closest (distances st) (unvisited st)")
    case None
    with 1(2) show ?thesis by (subst dijkstraLoop.simps) simp
  next
    case (Some current)
    show ?thesis
    proof (cases "current = endN")
      case True
      with Some 1(2) show ?thesis by (subst dijkstraLoop.simps) simp
    next
      case False
      from closest_finite [OF Some] obtain d where "map_of (distances st) current = Some (Num d)" ..
      with 1(2) have cur: "connected g [] start current"
        by (simp add: dijkstraInv_def)
      have "dijkstraInv g start endN (st\<lparr>unvisited := removeAll current (unvisited st)\<rparr>)"
        using 1(2) by (simp add: dijkstraInv_def)
      from relaxNeighbors_inv [OF cur 1(3) this subset_refl]
      have "dijkstraInv g start endN
              (fold (relaxNeighbor ws slots current) (neighborsOf g current)
                 (st\<lparr>unvisited := removeAll current (unvisited st)\<rparr>))" .
      from 1(1) [OF Some False this 1(3)] Some False show ?thesis
        by (subst dijkstraLoop.simps) simp
    qed
  qed
qed

lemma map_of_constant: "map_of (map (\<lambda>i. (i, c)) xs) n = Some v \<Longrightarrow> v = c"
  by (induction xs) (auto split: if_splits)

lemma dijkstraWithTimeWindowIn_disconnected:
  assumes "\<not> connected g [] start endN"
  shows "fst (dijkstraWithTimeWindowIn g start endN ws slots) = Some [endN]"
proof -
  define D where "D = AList.update start (Num 0) (map (\<lambda>i. (i, Infinity)) [1..9])"
  let ?st0 = "\<lparr>distances = D, previous = [], unvisited = [1..9]\<rparr>"
  have only: "n = start" if "map_of D n = Some (Num d)" for n d
  proof (rule ccontr)
    assume "n \<noteq> start"
    with that have "map_of (map (\<lambda>i. (i, Infinity)) [1..9]) n = Some (Num d)"
      by (simp add: D_def update_conv')
    from map_of_constant [OF this] show False by simp
  qed
  have "dijkstraInv g start endN ?st0"
    unfolding dijkstraInv_def
  proof (intro conjI allI impI)
    show "map_of (previous ?st0) endN = None" by simp
  next
    fix n d
    assume "map_of (distances ?st0) n = Some (Num d)"
    then have "n = start" using only by simp
    then show "connected g [] start n" by (simp add: connected_refl)
  qed
  from dijkstraLoop_inv [OF this assms, of ws slots]
  have "map_of (previous (dijkstraLoop g endN ws slots ?st0)) endN = None"
    by (simp add: dijkstraInv_def)
  then show ?thesis
    unfolding dijkstraWithTimeWindowIn_def Let_def D_def [symmetric]
    by (simp add: reconstructPath_def reconstructLoop.simps)
qed

section \<open>Claim about disconnected nodes\<close>

text \<open>
  C4, as the code has it: for a start and end node that are not connected, no strategy
  reports a \<open>NoPathFound\<close> outcome. \<open>findPath\<close> returns the made-up two-node sequence
  start, end; \<open>dijkstraWithTimeWindow\<close> returns the one-node path that holds the end node
  only; \<open>aStarPathfinding\<close> returns the empty path when both nodes are on its coordinate
  table, and throws a \<open>TypeError\<close> when one is not.
\<close>

theorem disconnected_search_results:
  "(\<not> connected g [] start endN \<longrightarrow>
      findPathIn g start endN = [start, endN]
      \<and> fst (dijkstraWithTimeWindowIn g start endN windowStart occupiedSlots) = Some [endN])
   \<and> (\<not> connected g avoidNodes start endN \<and> heuristic start endN = Inr h \<longrightarrow>
        aStarPathfindingIn g start endN avoidNodes = Some (Inr []))
   \<and> (heuristic start endN = Inl e \<longrightarrow>
        aStarPathfindingIn g start endN avoidNodes = Some (Inl e))"
proof (intro conjI impI)
  assume "\<not> connected g [] start endN"
  then show "findPathIn g start endN = [start, endN]"
    by (rule findPathIn_disconnected)
next
  assume "\<not> connected g [] start endN"
  then show "fst (dijkstraWithTimeWindowIn g start endN windowStart occupiedSlots) = Some [endN]"
    by (rule dijkstraWithTimeWindowIn_disconnected)
next
  assume "\<not> connected g avoidNodes start endN \<and> heuristic start endN = Inr h"
  then show "aStarPathfindingIn g start endN avoidNodes = Some (Inr [])"
    using aStarPathfindingIn_disconnected by blast
next
  assume "heuristic start endN = Inl e"
  then show "aStarPathfindingIn g start endN avoidNodes = Some (Inl e)"
    by (simp add: aStarPathfindingIn_def)
qed

lemma off_grid_disconnected: "\<not> connected nodeGraph [] 1 12"
proof (rule not_connected_outside)
  show "(1::int) \<in> {1, 2, 3, 4, 5, 6, 7, 8, 9}" by simp
  show "(12::int) \<notin> {1, 2, 3, 4, 5, 6, 7, 8, 9}" by simp
  show "\<forall>u \<in> {1, 2, 3, 4, 5, 6, 7, 8, 9}. \<forall>v \<in> set (neighborsOf nodeGraph u).
          v \<notin> set [] \<longrightarrow> v \<in> {1, 2, 3, 4, 5, 6, 7, 8, 9}"
    by (simp add: nodeGraph_def neighborsOf_def)
qed

lemma avoiding_8_disconnected: "\<not> connected nodeConnections [8] 1 9"
proof (rule not_connected_outside)
  show "(1::int) \<in> {1, 2, 3, 4, 5, 6, 7}" by simp
  show "(9::int) \<notin> {1, 2, 3, 4, 5, 6, 7}" by simp
  show "\<forall>u \<in> {1, 2, 3, 4, 5, 6, 7}. \<forall>v \<in> set (neighborsOf nodeConnections u).
          v \<notin> set [8] \<longrightarrow> v \<in> {1, 2, 3, 4, 5, 6, 7}"
    by (simp add: nodeConnections_def neighborsOf_def)
qed

theorem disconnected_search_results_witness:
  "findPathIn nodeGraph 1 12 = [1, 12]
   \<and> fst (dijkstraWithTimeWindowIn nodeGraph 1 12 0 []) = Some [12]
   \<and> aStarPathfindingIn nodeConnections 1 9 [8] = Some (Inr [])"
proof -
  have h: "heuristic 1 9 = Inr 4"
    by (simp add: heuristic_def positions_def)
  show ?thesis
    using disconnected_search_results [of nodeGraph 1 12 0 "[]" "[]" 4 TypeError]
      disconnected_search_results [of nodeConnections 1 9 0 "[]" "[8]" 4 TypeError]
      off_grid_disconnected avoiding_8_disconnected h
    by simp
qed

text \<open>
  C4 as the specification states it fails: node 12 is not connected to node 1, and
  \<open>findPath\<close> returns a two-node sequence along no edge; node 9 is not connected to node
  1 once node 8 is avoided, and \<open>aStarPathfinding\<close> returns the empty path.
\<close>

theorem no_path_found_counterexample:
  "\<not> connected nodeGraph [] 1 12
   \<and> findPath 1 12 = [1, 12]
   \<and> 12 \<notin> set (neighborsOf nodeGraph 1)
   \<and> \<not> connected nodeConnections [8] 1 9
   \<and> aStarPathfinding 1 9 [8] = Some (Inr [])"
proof -
  have "findPath 1 12 = [1, 12]"
    by (simp add: findPath_def findPathIn_def nodeGraph_def neighborsOf_def)
  moreover have "12 \<notin> set (neighborsOf nodeGraph 1)"
    by (simp add: nodeGraph_def neighborsOf_def)
  moreover have "aStarPathfinding 1 9 [8] = Some (Inr [])"
    by (simp add: route_defs)
  ultimately show ?thesis
    using off_grid_disconnected avoiding_8_disconnected by simp
qed

section \<open>Claim about conflict resolution\<close>










end
